theory Spec2Isabelle
  imports Complex_Main "HOL-Library.Word" "HOL-Library.AList"
begin

section \<open>Scaling policy\<close>

text \<open>
  The controller calls \<^verbatim>\<open>step.Spec.GetReplicas().Calculate(pending)\<close>
  (step_controller.go, line 68). The type of the policy and the method \<open>Calculate\<close>
  belong to the package \<^verbatim>\<open>api/v1alpha1\<close>, which is not among the sources.
\<close>

record ScalingPolicy =
  policy_min :: int
  policy_max :: "int option"
  policy_ratio :: "rat option"

text \<open>
  Modelled from the spec: \<open>Calculate\<close> is not among the sources. Section 4.1 reads:
  if ratio undefined, return min; else raw = ceil(pending / ratio), clamp to [min, max]
  (if max undefined, clamp only below). The call site passes the pending count alone, so
  the peeking of section 4.1, which depends on the current replica count, is not part of it.
  The ratio is an exact rational here, not a floating-point number.
\<close>

definition Calculate :: "ScalingPolicy \<Rightarrow> int \<Rightarrow> int" where
  "Calculate p pending =
     (case policy_ratio p of
        None \<Rightarrow> policy_min p
      | Some ratio \<Rightarrow>
          (let raw = \<lceil>of_int pending / ratio\<rceil> in
           if raw < policy_min p then policy_min p
           else (case policy_max p of
                   None \<Rightarrow> raw
                 | Some mx \<Rightarrow> if mx < raw then mx else raw)))"

section \<open>Decimal conversions\<close>

text \<open>
  The controller writes a replica index with \<^verbatim>\<open>strconv.Itoa\<close> and \<^verbatim>\<open>%d\<close>, and reads it
  back with \<^verbatim>\<open>strconv.Atoi\<close>, dropping the error; the sidecar keys its metrics by
  \<^verbatim>\<open>strconv.Itoa(replica)\<close>. Both belong to the Go library. \<open>Atoi\<close> returns the number
  and whether the text was one: on a syntax error the number is 0, out of the range of a
  64-bit int it is the nearest bound.
\<close>

definition digit_char :: "nat \<Rightarrow> char" where
  "digit_char d = char_of (48 + d)"

function digits10 :: "nat \<Rightarrow> string" where
  "digits10 n =
     (if n < 10 then [digit_char n] else digits10 (n div 10) @ [digit_char (n mod 10)])"
  by pat_completeness auto
termination
  by (relation "measure id") auto

declare digits10.simps [simp del]

definition Itoa :: "int \<Rightarrow> string" where
  "Itoa i = (if i < 0 then CHR ''-'' # digits10 (nat (- i)) else digits10 (nat i))"

definition digit_val :: "char \<Rightarrow> nat option" where
  "digit_val c =
     (let v = (of_char c :: nat) in if 48 \<le> v \<and> v \<le> 57 then Some (v - 48) else None)"

fun parse_digits :: "nat \<Rightarrow> string \<Rightarrow> nat option" where
  "parse_digits acc [] = Some acc"
| "parse_digits acc (c # cs) =
     (case digit_val c of None \<Rightarrow> None | Some d \<Rightarrow> parse_digits (acc * 10 + d) cs)"

definition Atoi :: "string \<Rightarrow> int \<times> bool" where
  "Atoi s =
     (case s of
        [] \<Rightarrow> (0, False)
      | c # cs \<Rightarrow>
          (let neg = (c = CHR ''-'');
               body = (if c = CHR ''-'' \<or> c = CHR ''+'' then cs else s)
           in if body = [] then (0, False)
              else (case parse_digits 0 body of
                      None \<Rightarrow> (0, False)
                    | Some n \<Rightarrow>
                        if neg then (if 2 ^ 63 < int n then (- (2 ^ 63), False) else (- int n, True))
                        else (if 2 ^ 63 \<le> int n then (2 ^ 63 - 1, False) else (int n, True)))))"


section \<open>Objects of the cluster\<close>

text \<open>
  Times are instants in nanoseconds; \<^verbatim>\<open>time.Minute\<close> is a duration in nanoseconds.
\<close>

type_synonym time = int

definition Minute :: int where
  "Minute = 60 * 1000000000"

definition Second :: int where
  "Second = 1000000000"

text \<open>
  A time of a status is a \<^verbatim>\<open>metav1.Time\<close>, of the Kubernetes library: its JSON form is
  RFC 3339 in whole seconds, so a time that goes through a patch loses its fraction of a
  second.
\<close>

definition wholeSeconds :: "time \<Rightarrow> time" where
  "wholeSeconds t = (t div Second) * Second"

record Metrics =
  Replica :: "32 word"
  Total :: "64 word"
  Pending :: "64 word"

text \<open>
  A Go map is an association list read with \<open>map_of\<close> and written with \<open>AList.update\<close>;
  a loop over a map visits each key once (\<open>AList.clearjunk\<close>); a nil map is \<open>None\<close>.
  Of a source status only the metrics by replica are kept.
\<close>

record SourceStatus =
  Metrics :: "(string \<times> Metrics) list option"

type_synonym SourceStatuses = "(string \<times> SourceStatus) list"

text \<open>A step phase is a string (\<^verbatim>\<open>step.go\<close> prints it with \<^verbatim>\<open>%s\<close>).\<close>

record StepStatus =
  Phase :: string
  Message :: string
  Replicas :: "32 word"
  LastScaleTime :: "time option"
  SourceStatuses :: "SourceStatuses option"
  SinkStatues :: "SourceStatuses option"

text \<open>
  Of a step: its name, its deletion timestamp, the scaling policy of its spec and its
  status, a pointer that may be nil.
\<close>

record Step =
  Name :: string
  DeletionTimestamp :: "time option"
  SpecReplicas :: ScalingPolicy
  Status :: "StepStatus option"

record ContainerStatus =
  ContainerName :: string
  Terminated :: bool
  Running :: bool

text \<open>
  Of a pod: its name, the label naming its step, the replica annotation (empty when
  absent, as a read of a Go map gives), and of its status the phase, the message and the
  container statuses. The containers, volumes and environment that \<open>Reconcile\<close> gives a
  new pod are left out.
\<close>

record Pod =
  PodName :: string
  StepNameLabel :: string
  ReplicaAnnotation :: string
  PodPhase :: string
  PodMessage :: string
  ContainerStatuses :: "ContainerStatus list"

datatype api_error = NotFound | AlreadyExists | Conflict | ContainerNotFound | OtherError string

datatype reconcile_error =
  ApiError api_error
| FailedToExec api_error
| FailedToStream api_error
| FailedToPatch api_error
| NilPointerPanic

section \<open>Merge patches of the status\<close>

text \<open>
  A merge patch of the status names the fields it sets: a top-level field by its new
  value, a metrics entry by source (or sink) name and replica key, with \<open>None\<close> for an
  entry it removes.
\<close>

type_synonym entries_patch = "((string \<times> string) \<times> Metrics option) list"

record StatusPatch =
  patchPhase :: "string option"
  patchMessage :: "string option"
  patchReplicas :: "32 word option"
  patchLastScaleTime :: "time option option"
  patchSources :: entries_patch
  patchSinks :: entries_patch


definition zeroSourceStatus :: SourceStatus where
  "zeroSourceStatus = \<lparr>Metrics = None\<rparr>"

definition emptyStatus :: StepStatus where
  "emptyStatus = \<lparr>Phase = [], Message = [], Replicas = 0, LastScaleTime = None,
     SourceStatuses = None, SinkStatues = None\<rparr>"

text \<open>Reads of Go maps: a missing key gives the zero value.\<close>

definition getSourceStatus :: "SourceStatuses \<Rightarrow> string \<Rightarrow> SourceStatus" where
  "getSourceStatus m name = (case map_of m name of None \<Rightarrow> zeroSourceStatus | Some x \<Rightarrow> x)"



definition setEntry ::
  "string \<times> string \<Rightarrow> Metrics option \<Rightarrow> SourceStatuses option \<Rightarrow> SourceStatuses option" where
  "setEntry nk x m =
     (case x of
        Some v \<Rightarrow>
          (let al = (case m of None \<Rightarrow> [] | Some al \<Rightarrow> al);
               ms = (case Metrics (getSourceStatus al (fst nk)) of None \<Rightarrow> [] | Some ms \<Rightarrow> ms)
           in Some (AList.update (fst nk)
                     ((getSourceStatus al (fst nk))\<lparr>Metrics := Some (AList.update (snd nk) v ms)\<rparr>)
                     al))
      | None \<Rightarrow>
          (case m of
             None \<Rightarrow> None
           | Some al \<Rightarrow>
               (case map_of al (fst nk) of
                  None \<Rightarrow> Some al
                | Some s \<Rightarrow>
                    (case Metrics s of
                       None \<Rightarrow> Some al
                     | Some ms \<Rightarrow>
                         Some (AList.update (fst nk)
                                (s\<lparr>Metrics := Some (AList.delete (snd nk) ms)\<rparr>) al)))))"

definition applyEntries :: "entries_patch \<Rightarrow> SourceStatuses option \<Rightarrow> SourceStatuses option" where
  "applyEntries p m = fold (\<lambda>(nk, x). setEntry nk x) p m"

text \<open>
  Modelled from the spec: the API server, which applies a merge patch to the status
  sub-resource, is not among the sources. Section 6 and the glossary read: a merge patch is
  a partial update applied to a resource's status, only touching specified fields.
\<close>

definition applyMergePatch :: "StatusPatch \<Rightarrow> StepStatus \<Rightarrow> StepStatus" where
  "applyMergePatch p s =
     \<lparr>Phase = (case patchPhase p of None \<Rightarrow> Phase s | Some x \<Rightarrow> x),
      Message = (case patchMessage p of None \<Rightarrow> Message s | Some x \<Rightarrow> x),
      Replicas = (case patchReplicas p of None \<Rightarrow> Replicas s | Some x \<Rightarrow> x),
      LastScaleTime = (case patchLastScaleTime p of None \<Rightarrow> LastScaleTime s | Some x \<Rightarrow> x),
      SourceStatuses = applyEntries (patchSources p) (SourceStatuses s),
      SinkStatues = applyEntries (patchSinks p) (SinkStatues s)\<rparr>"

text \<open>All entries of a metrics map, each key once.\<close>

definition entriesOf :: "SourceStatuses option \<Rightarrow> ((string \<times> string) \<times> Metrics) list" where
  "entriesOf m =
     (case m of
        None \<Rightarrow> []
      | Some al \<Rightarrow>
          concat (map (\<lambda>(name, s).
                    (case Metrics s of
                       None \<Rightarrow> []
                     | Some ms \<Rightarrow> map (\<lambda>(r, v). ((name, r), v)) (AList.clearjunk ms)))
                  (AList.clearjunk al)))"

text \<open>
  Modelled from the spec: the JSON encoding of a status
  (\<^verbatim>\<open>dfv1.Json(&dfv1.Step{Status: newStatus})\<close>, line 198) depends on the declaration of
  \<open>StepStatus\<close>, which is not among the sources. Section 6 reads: a JSON merge patch
  containing only changed top-level status fields. An empty string, an unset time and a
  nil map are fields the patch does not name; a time is written in whole seconds.
\<close>

definition Json :: "StepStatus \<Rightarrow> StatusPatch" where
  "Json s =
     \<lparr>patchPhase = (if Phase s = [] then None else Some (Phase s)),
      patchMessage = (if Message s = [] then None else Some (Message s)),
      patchReplicas = Some (Replicas s),
      patchLastScaleTime =
        (case LastScaleTime s of None \<Rightarrow> None | Some t \<Rightarrow> Some (Some (wholeSeconds t))),
      patchSources = map (\<lambda>(nk, v). (nk, Some v)) (entriesOf (SourceStatuses s)),
      patchSinks = map (\<lambda>(nk, v). (nk, Some v)) (entriesOf (SinkStatues s))\<rparr>"

section \<open>The controller\<close>

text \<open>
  Functions that \<open>Reconcile\<close> calls and that are not among the sources are parameters:
  the constant \<^verbatim>\<open>dfv1.StepUnknown\<close>, \<^verbatim>\<open>dfv1.MinStepPhase\<close>, the method \<open>Completed\<close> of a phase,
  \<open>inferPhase\<close> of the package \<^verbatim>\<open>controllers\<close>, and the pending count \<open>GetPending\<close> of the
  source statuses.
\<close>

record helpers =
  StepUnknown :: string
  MinStepPhase :: "string \<Rightarrow> string \<Rightarrow> string"
  Completed :: "string \<Rightarrow> bool"
  inferPhase :: "Pod \<Rightarrow> string"
  GetPending :: "SourceStatuses option \<Rightarrow> int"

text \<open>
  What one run of \<open>Reconcile\<close> meets: the failures of its calls to the API, by the name
  of the object, and the two readings of the clock (\<^verbatim>\<open>time.Since\<close>, line 71, and
  \<^verbatim>\<open>time.Now\<close>, line 147).
\<close>

record env =
  getErr :: "api_error option"
  createErr :: "string \<Rightarrow> api_error option"
  listErr :: "api_error option"
  deleteErr :: "string \<Rightarrow> api_error option"
  executorErr :: "string \<Rightarrow> api_error option"
  streamErr :: "string \<Rightarrow> api_error option"
  patchErr :: "api_error option"
  clockSince :: time
  clockNow :: time

datatype request =
  CreatePod string
| ListPods string
| DeletePod string
| ExecKill string
| PatchStatus StatusPatch

text \<open>The cluster: the stored step, the pods, and the requests made so far.\<close>

record kube =
  stepObject :: "Step option"
  podObjects :: "Pod list"
  requests :: "request list"

definition issue :: "request \<Rightarrow> kube \<Rightarrow> kube" where
  "issue r k = k\<lparr>requests := requests k @ [r]\<rparr>"

definition kubeGet :: "env \<Rightarrow> kube \<Rightarrow> api_error + Step" where
  "kubeGet e k =
     (case getErr e of
        Some err \<Rightarrow> Inl err
      | None \<Rightarrow> (case stepObject k of None \<Rightarrow> Inl NotFound | Some s \<Rightarrow> Inr s))"

definition kubeCreate :: "env \<Rightarrow> Pod \<Rightarrow> kube \<Rightarrow> api_error option \<times> kube" where
  "kubeCreate e p k =
     (let k' = issue (CreatePod (PodName p)) k in
      case createErr e (PodName p) of
        Some err \<Rightarrow> (Some err, k')
      | None \<Rightarrow>
          if PodName p \<in> PodName ` set (podObjects k) then (Some AlreadyExists, k')
          else (None, k'\<lparr>podObjects := podObjects k @ [p]\<rparr>))"

definition kubeList :: "env \<Rightarrow> string \<Rightarrow> kube \<Rightarrow> (api_error + Pod list) \<times> kube" where
  "kubeList e stepName k =
     (let k' = issue (ListPods stepName) k in
      case listErr e of
        Some err \<Rightarrow> (Inl err, k')
      | None \<Rightarrow> (Inr (filter (\<lambda>p. StepNameLabel p = stepName) (podObjects k)), k'))"

definition kubeDelete :: "env \<Rightarrow> Pod \<Rightarrow> kube \<Rightarrow> api_error option \<times> kube" where
  "kubeDelete e p k =
     (let k' = issue (DeletePod (PodName p)) k in
      case deleteErr e (PodName p) of
        Some err \<Rightarrow> (Some err, k')
      | None \<Rightarrow>
          if PodName p \<in> PodName ` set (podObjects k)
          then (None, k'\<lparr>podObjects := filter (\<lambda>q. PodName q \<noteq> PodName p) (podObjects k)\<rparr>)
          else (Some NotFound, k'))"

definition kubePatchStatus :: "env \<Rightarrow> StatusPatch \<Rightarrow> kube \<Rightarrow> api_error option \<times> kube" where
  "kubePatchStatus e p k =
     (let k' = issue (PatchStatus p) k in
      case patchErr e of
        Some err \<Rightarrow> (Some err, k')
      | None \<Rightarrow>
          (case stepObject k of
             None \<Rightarrow> (Some NotFound, k')
           | Some s \<Rightarrow>
               (None, k'\<lparr>stepObject := Some (s\<lparr>Status := Some (applyMergePatch p
                  (case Status s of None \<Rightarrow> emptyStatus | Some st \<Rightarrow> st))\<rparr>)\<rparr>)))"

text \<open>
  \<^verbatim>\<open>client.IgnoreNotFound\<close> belongs to the controller runtime.
\<close>

definition IgnoreNotFound :: "api_error option \<Rightarrow> api_error option" where
  "IgnoreNotFound err = (if err = Some NotFound then None else err)"

text \<open>
  Modelled from the spec: \<open>IgnoreAlreadyExists\<close>, \<open>IgnoreConflict\<close> and
  \<open>IgnoreContainerNotFound\<close> of the package \<^verbatim>\<open>controllers\<close> are not among the sources.
  Section 7 reads: pod create "already exists": ignored; status-patch conflict: ignored;
  remote-exec "container not found": ignored.
\<close>

definition IgnoreAlreadyExists :: "api_error option \<Rightarrow> api_error option" where
  "IgnoreAlreadyExists err = (if err = Some AlreadyExists then None else err)"

definition IgnoreConflict :: "api_error option \<Rightarrow> api_error option" where
  "IgnoreConflict err = (if err = Some Conflict then None else err)"

definition IgnoreContainerNotFound :: "api_error option \<Rightarrow> api_error option" where
  "IgnoreContainerNotFound err = (if err = Some ContainerNotFound then None else err)"

text \<open>
  Modelled from the spec: \<open>GetReplicas\<close> of a status is not among the sources. Section 3
  reads: \<open>replicas: uint\<close>; the controller compares it with an int.
\<close>

definition GetReplicas :: "StepStatus \<Rightarrow> int" where
  "GetReplicas s = uint (Replicas s)"

text \<open>Lines 67 to 73: the replica count of this run.\<close>

definition scaledReplicas :: "helpers \<Rightarrow> env \<Rightarrow> Step \<Rightarrow> StepStatus \<Rightarrow> int" where
  "scaledReplicas h e step status =
     (let lastReplicas = GetReplicas status;
          newReplicas = Calculate (SpecReplicas step) (GetPending h (SourceStatuses status))
      in case LastScaleTime status of
           None \<Rightarrow> newReplicas
         | Some t \<Rightarrow> if clockSince e - t > Minute then newReplicas else lastReplicas)"

text \<open>Lines 82 to 96: the pod of a replica.\<close>

definition podName :: "Step \<Rightarrow> int \<Rightarrow> string" where
  "podName step replica = Name step @ ''-'' @ Itoa replica"

definition newPod :: "Step \<Rightarrow> int \<Rightarrow> Pod" where
  "newPod step replica =
     \<lparr>PodName = podName step replica, StepNameLabel = Name step,
      ReplicaAnnotation = Itoa replica, PodPhase = [], PodMessage = [],
      ContainerStatuses = []\<rparr>"

text \<open>Lines 81 to 136: the loop that creates the pods.\<close>

function createPods :: "env \<Rightarrow> Step \<Rightarrow> int \<Rightarrow> int \<Rightarrow> kube \<Rightarrow> api_error option \<times> kube" where
  "createPods e step replica replicas k =
     (if replica < replicas then
        (case kubeCreate e (newPod step replica) k of
           (err, k') \<Rightarrow>
             if IgnoreAlreadyExists err \<noteq> None then (err, k')
             else createPods e step (replica + 1) replicas k')
      else (None, k))"
  by pat_completeness auto
termination
  by (relation "measure (\<lambda>(e, step, replica, replicas, k). nat (replicas - replica))") auto

declare createPods.simps [simp del]

text \<open>Lines 144 to 148: the status that the run starts from.\<close>

definition initialStatus :: "helpers \<Rightarrow> env \<Rightarrow> int \<Rightarrow> int \<Rightarrow> StepStatus" where
  "initialStatus h e lastReplicas replicas =
     \<lparr>Phase = StepUnknown h, Message = [], Replicas = word_of_int replicas,
      LastScaleTime = (if lastReplicas \<noteq> replicas then Some (clockNow e) else None),
      SourceStatuses = None, SinkStatues = None\<rparr>"

text \<open>Lines 163 to 191: the loop over the container statuses of a pod.\<close>

fun killSidecar ::
  "env \<Rightarrow> Pod \<Rightarrow> ContainerStatus list \<Rightarrow> kube \<Rightarrow> reconcile_error option \<times> kube" where
  "killSidecar e pod [] k = (None, k)"
| "killSidecar e pod (s # ss) k =
     (if ContainerName s \<noteq> ''main'' \<or> \<not> Terminated s then killSidecar e pod ss k
      else (case executorErr e (PodName pod) of
              Some err \<Rightarrow> (Some (FailedToExec err), k)
            | None \<Rightarrow>
                (let k' = issue (ExecKill (PodName pod)) k in
                 case IgnoreContainerNotFound (streamErr e (PodName pod)) of
                   Some err \<Rightarrow> (Some (FailedToStream err), k')
                 | None \<Rightarrow> killSidecar e pod ss k')))"

text \<open>Lines 156 to 161: what a pod within the range does to the new status.\<close>

definition inspectStatus :: "helpers \<Rightarrow> StepStatus \<Rightarrow> Pod \<Rightarrow> StepStatus" where
  "inspectStatus h newStatus pod =
     (let phase = inferPhase h pod;
          st1 = newStatus\<lparr>Phase := MinStepPhase h (Phase newStatus) phase\<rparr>
      in if Completed h (Phase st1) \<and> PodMessage pod \<noteq> []
         then st1\<lparr>Message := PodMessage pod\<rparr> else st1)"

text \<open>Lines 150 to 193: the loop over the listed pods.\<close>

fun inspectPods ::
  "helpers \<Rightarrow> env \<Rightarrow> int \<Rightarrow> Pod list \<Rightarrow> StepStatus \<Rightarrow> kube \<Rightarrow>
     reconcile_error option \<times> StepStatus \<times> kube" where
  "inspectPods h e replicas [] newStatus k = (None, newStatus, k)"
| "inspectPods h e replicas (pod # pods) newStatus k =
     (if fst (Atoi (ReplicaAnnotation pod)) \<ge> replicas then
        (case kubeDelete e pod k of
           (err, k') \<Rightarrow>
             (case IgnoreNotFound err of
                Some err' \<Rightarrow> (Some (ApiError err'), newStatus, k')
              | None \<Rightarrow> inspectPods h e replicas pods newStatus k'))
      else
        (let st = inspectStatus h newStatus pod
         in case killSidecar e pod (ContainerStatuses pod) k of
              (Some err, k') \<Rightarrow> (Some err, st, k')
            | (None, k') \<Rightarrow> inspectPods h e replicas pods st k'))"

text \<open>Lines 195 to 204: the patch of the status.\<close>

definition patchStatus ::
  "env \<Rightarrow> StepStatus \<Rightarrow> StepStatus \<Rightarrow> kube \<Rightarrow> reconcile_error option \<times> kube" where
  "patchStatus e status newStatus k =
     (if status \<noteq> newStatus then
        (case kubePatchStatus e (Json newStatus) k of
           (err, k') \<Rightarrow>
             (case IgnoreConflict err of
                Some err' \<Rightarrow> (Some (FailedToPatch err'), k')
              | None \<Rightarrow> (None, k')))
      else (None, k))"

text \<open>
  The local variables of a run that has reached line 195, the comparison of the new
  status with the one read.
\<close>

record locals =
  lastReplicas :: int
  replicas :: int
  pods :: "Pod list"
  newStatus :: StepStatus

text \<open>
  The body of \<open>Reconcile\<close>: the error it returns, its local variables if it has reached
  line 195, and the cluster it leaves.
\<close>

definition reconcileRun ::
  "helpers \<Rightarrow> env \<Rightarrow> kube \<Rightarrow> reconcile_error option \<times> locals option \<times> kube" where
  "reconcileRun h e k =
     (case kubeGet e k of
        Inl err \<Rightarrow> (map_option ApiError (IgnoreNotFound (Some err)), None, k)
      | Inr st \<Rightarrow>
          if DeletionTimestamp st \<noteq> None then (None, None, k)
          else
            (case Status st of
               None \<Rightarrow> (Some NilPointerPanic, None, k)
             | Some status \<Rightarrow>
                 (let lastR = GetReplicas status;
                      r = scaledReplicas h e st status
                  in case createPods e st 0 r k of
                       (Some err, k1) \<Rightarrow> (Some (ApiError err), None, k1)
                     | (None, k1) \<Rightarrow>
                         (case kubeList e (Name st) k1 of
                            (Inl err, k2) \<Rightarrow> (Some (ApiError err), None, k2)
                          | (Inr ps, k2) \<Rightarrow>
                              (case inspectPods h e r ps (initialStatus h e lastR r) k2 of
                                 (Some err, ns, k3) \<Rightarrow> (Some err, None, k3)
                               | (None, ns, k3) \<Rightarrow>
                                   (case patchStatus e status ns k3 of
                                      (err, k4) \<Rightarrow>
                                        (err,
                                         Some \<lparr>lastReplicas = lastR, replicas = r, pods = ps,
                                               newStatus = ns\<rparr>,
                                         k4)))))))"

definition Reconcile :: "helpers \<Rightarrow> env \<Rightarrow> kube \<Rightarrow> reconcile_error option \<times> kube" where
  "Reconcile h e k = (case reconcileRun h e k of (err, l, k') \<Rightarrow> (err, k'))"

text \<open>The requests that a run has added to those of the cluster it started from.\<close>

definition issued :: "kube \<Rightarrow> kube \<Rightarrow> request list" where
  "issued k k' = drop (length (requests k)) (requests k')"

text \<open>The status of the stored step, and what a sequence of runs does to it.\<close>

definition isPatch :: "request \<Rightarrow> bool" where
  "isPatch r = (case r of PatchStatus p \<Rightarrow> True | _ \<Rightarrow> False)"

definition storedStatus :: "kube \<Rightarrow> StepStatus option" where
  "storedStatus k = (case stepObject k of None \<Rightarrow> None | Some st \<Rightarrow> Status st)"

definition storedSources :: "kube \<Rightarrow> SourceStatuses option" where
  "storedSources k = (case storedStatus k of None \<Rightarrow> None | Some s \<Rightarrow> SourceStatuses s)"

definition storedSinks :: "kube \<Rightarrow> SourceStatuses option" where
  "storedSinks k = (case storedStatus k of None \<Rightarrow> None | Some s \<Rightarrow> SinkStatues s)"


definition storedLastScaleTime :: "kube \<Rightarrow> time option" where
  "storedLastScaleTime k = (case storedStatus k of None \<Rightarrow> None | Some s \<Rightarrow> LastScaleTime s)"

text \<open>
  The listed pods that a run with a replica count keeps; the statuses of a pod that name a
  terminated main container; the requests that the loop makes for a pod.
\<close>

definition inRange :: "int \<Rightarrow> Pod \<Rightarrow> bool" where
  "inRange r p \<longleftrightarrow> fst (Atoi (ReplicaAnnotation p)) < r"

definition keptPods :: "int \<Rightarrow> Pod list \<Rightarrow> Pod list" where
  "keptPods r ps = filter (inRange r) ps"

definition mainTerminated :: "ContainerStatus list \<Rightarrow> ContainerStatus list" where
  "mainTerminated css = filter (\<lambda>s. ContainerName s = ''main'' \<and> Terminated s) css"

definition podRequests :: "int \<Rightarrow> Pod \<Rightarrow> request list" where
  "podRequests r p =
     (if inRange r p
      then replicate (length (mainTerminated (ContainerStatuses p))) (ExecKill (PodName p))
      else [DeletePod (PodName p)])"

text \<open>
  The phase after a list of pods, from a phase; and the positions in a list of pods of
  those that carry a message and at which the phase so far is a completed one.
\<close>

definition phaseOf :: "helpers \<Rightarrow> string \<Rightarrow> Pod list \<Rightarrow> string" where
  "phaseOf h ph ps = foldl (MinStepPhase h) ph (map (inferPhase h) ps)"

definition surfacing :: "helpers \<Rightarrow> string \<Rightarrow> Pod list \<Rightarrow> nat list" where
  "surfacing h ph ps =
     filter (\<lambda>i. PodMessage (ps ! i) \<noteq> [] \<and> Completed h (phaseOf h ph (take (Suc i) ps)))
       [0..<length ps]"

text \<open>
  The pods of a step in a cluster. A cluster is managed for a step when its pods have
  distinct names, each pod of the step is one that \<open>Reconcile\<close> has created for a replica
  index (of any status), and no other pod bears the name of such a pod.
\<close>

definition isCreate :: "request \<Rightarrow> bool" where
  "isCreate r = (case r of CreatePod n \<Rightarrow> True | _ \<Rightarrow> False)"

definition isDelete :: "request \<Rightarrow> bool" where
  "isDelete r = (case r of DeletePod n \<Rightarrow> True | _ \<Rightarrow> False)"

definition stepPods :: "Step \<Rightarrow> kube \<Rightarrow> Pod list" where
  "stepPods st k = filter (\<lambda>p. StepNameLabel p = Name st) (podObjects k)"

definition managed :: "Step \<Rightarrow> kube \<Rightarrow> bool" where
  "managed st k \<longleftrightarrow>
     distinct (map PodName (podObjects k)) \<and>
     (\<forall>p \<in> set (podObjects k).
        if StepNameLabel p = Name st
        then 0 \<le> fst (Atoi (ReplicaAnnotation p)) \<and>
             ReplicaAnnotation p = Itoa (fst (Atoi (ReplicaAnnotation p))) \<and>
             PodName p = podName st (fst (Atoi (ReplicaAnnotation p)))
        else (\<forall>j. PodName p \<noteq> podName st j))"

text \<open>The requests of a part of a run: those before, then some that are no patch.\<close>

definition extends :: "kube \<Rightarrow> kube \<Rightarrow> bool" where
  "extends k k' \<longleftrightarrow>
     (\<exists>xs. requests k' = requests k @ xs \<and> (\<forall>x \<in> set xs. \<not> isPatch x))"


section \<open>The sidecar\<close>

text \<open>
  Of the globals of the sidecar: the replica, the statuses of \<open>lastStep\<close> and of \<open>step\<close>,
  the hooks, each with the name that \<open>GetFuncName\<close> gives it, and the log. A hook works on
  the status of \<open>step\<close> and may fail. The status of \<open>step\<close> is not nil: \<open>Exec\<close> reads a
  field of it before any patch, and so does \<open>patchStepStatus\<close> of the object it stores.
\<close>

datatype log_entry = Info string string | Error string string

type_synonym hook = "StepStatus \<Rightarrow> string option \<times> StepStatus"

record sidecar =
  replica :: int
  lastStep :: StepStatus
  step :: StepStatus
  prePatchHooks :: "(string \<times> hook) list"
  logged :: "log_entry list"














text \<open>
  What the hooks leave: the status after all of them, each run on what the one before has
  left, and the entries of the log.
\<close>

definition afterHooks :: "(string \<times> hook) list \<Rightarrow> StepStatus \<Rightarrow> StepStatus" where
  "afterHooks hooks st = fold (\<lambda>nf s. snd (snd nf s)) hooks st"




section \<open>Examples\<close>

text \<open>
  An instance of the parameters, for the examples: the phases of Kubernetes, ranked so that
  a failed replica drags the minimum down and all replicas must have succeeded for the
  minimum to be Succeeded (section 4.3 of the spec); the phase of a pod as the phase of
  the step; the pending counts of all replicas, summed (section 4.1).
\<close>

definition exRank :: "string \<Rightarrow> nat" where
  "exRank p =
     (if p = ''Failed'' then 0 else if p = ''Pending'' then 1 else if p = ''Running'' then 2
      else if p = ''Succeeded'' then 3 else 4)"

definition exHelpers :: helpers where
  "exHelpers =
     \<lparr>StepUnknown = ''Unknown'',
      MinStepPhase = (\<lambda>a b. if exRank a \<le> exRank b then a else b),
      Completed = (\<lambda>p. p = ''Succeeded'' \<or> p = ''Failed''),
      inferPhase = PodPhase,
      GetPending = (\<lambda>m. sum_list (map (\<lambda>(nk, v). uint (Pending v)) (entriesOf m)))\<rparr>"

text \<open>No failure; the clock reads 100 s, then 101 s.\<close>

definition exEnv :: env where
  "exEnv =
     \<lparr>getErr = None, createErr = (\<lambda>n. None), listErr = None, deleteErr = (\<lambda>n. None),
      executorErr = (\<lambda>n. None), streamErr = (\<lambda>n. None), patchErr = None,
      clockSince = 100000000000, clockNow = 101000000000\<rparr>"

text \<open>
  A step named s, of policy min 1, max 5, ratio 1000, with one replica so far and 2500
  messages pending at replica 0 of its source; and a cluster that holds it and no pod.
\<close>

definition exStatus :: StepStatus where
  "exStatus =
     \<lparr>Phase = ''Unknown'', Message = [], Replicas = 1, LastScaleTime = None,
      SourceStatuses =
        Some [(''in'', \<lparr>Metrics = Some [(''0'', \<lparr>Replica = 0, Total = 7, Pending = 2500\<rparr>)]\<rparr>)],
      SinkStatues = None\<rparr>"

definition exStep :: Step where
  "exStep =
     \<lparr>Name = ''s'', DeletionTimestamp = None,
      SpecReplicas = \<lparr>policy_min = 1, policy_max = Some 5, policy_ratio = Some 1000\<rparr>,
      Status = Some exStatus\<rparr>"

definition exKube :: kube where
  "exKube = \<lparr>stepObject = Some exStep, podObjects = [], requests = []\<rparr>"

text \<open>What the run on this cluster is to give: three pods, and a patch of the status.\<close>

definition exPods :: "Pod list" where
  "exPods = [newPod exStep 0, newPod exStep 1, newPod exStep 2]"

definition exNewStatus :: StepStatus where
  "exNewStatus =
     \<lparr>Phase = ''Unknown'', Message = [], Replicas = 3, LastScaleTime = Some 101000000000,
      SourceStatuses = None, SinkStatues = None\<rparr>"

definition exLocals :: locals where
  "exLocals = \<lparr>lastReplicas = 1, replicas = 3, pods = exPods, newStatus = exNewStatus\<rparr>"

definition exKube1 :: kube where
  "exKube1 =
     \<lparr>stepObject =
        Some (exStep\<lparr>Status := Some (exStatus\<lparr>Replicas := 3, LastScaleTime := Some 101000000000\<rparr>)\<rparr>),
      podObjects = exPods,
      requests = [CreatePod ''s-0'', CreatePod ''s-1'', CreatePod ''s-2'', ListPods ''s'',
                  PatchStatus (Json exNewStatus)]\<rparr>"

text \<open>
  A step of one replica and no ratio, whose status is what a run builds, and its pod:
  nothing is to change.
\<close>

definition exQuietStatus :: StepStatus where
  "exQuietStatus =
     \<lparr>Phase = ''Unknown'', Message = [], Replicas = 1, LastScaleTime = None,
      SourceStatuses = None, SinkStatues = None\<rparr>"

definition exQuietStep :: Step where
  "exQuietStep =
     \<lparr>Name = ''q'', DeletionTimestamp = None,
      SpecReplicas = \<lparr>policy_min = 1, policy_max = None, policy_ratio = None\<rparr>,
      Status = Some exQuietStatus\<rparr>"

definition exQuietKube :: kube where
  "exQuietKube =
     \<lparr>stepObject = Some exQuietStep, podObjects = [newPod exQuietStep 0], requests = []\<rparr>"

definition exQuietLocals :: locals where
  "exQuietLocals =
     \<lparr>lastReplicas = 1, replicas = 1, pods = [newPod exQuietStep 0], newStatus = exQuietStatus\<rparr>"





text \<open>
  A step named w of two replicas and no ratio, and its pods: replica 0 runs and carries a
  message, the main container of replica 1 has failed, and a pod of replica 7 is left from
  a larger scale, its main container terminated and its sidecar running.
\<close>

definition exWorkStatus :: StepStatus where
  "exWorkStatus =
     \<lparr>Phase = ''Running'', Message = [], Replicas = 2, LastScaleTime = None,
      SourceStatuses = None, SinkStatues = None\<rparr>"

definition exWorkStep :: Step where
  "exWorkStep =
     \<lparr>Name = ''w'', DeletionTimestamp = None,
      SpecReplicas = \<lparr>policy_min = 2, policy_max = None, policy_ratio = None\<rparr>,
      Status = Some exWorkStatus\<rparr>"

definition exWork0 :: Pod where
  "exWork0 =
     \<lparr>PodName = ''w-0'', StepNameLabel = ''w'', ReplicaAnnotation = ''0'',
      PodPhase = ''Running'', PodMessage = ''m'',
      ContainerStatuses =
        [\<lparr>ContainerName = ''sidecar'', Terminated = False, Running = True\<rparr>,
         \<lparr>ContainerName = ''main'', Terminated = False, Running = True\<rparr>]\<rparr>"

definition exWork1 :: Pod where
  "exWork1 =
     \<lparr>PodName = ''w-1'', StepNameLabel = ''w'', ReplicaAnnotation = ''1'',
      PodPhase = ''Failed'', PodMessage = [],
      ContainerStatuses =
        [\<lparr>ContainerName = ''sidecar'', Terminated = False, Running = True\<rparr>,
         \<lparr>ContainerName = ''main'', Terminated = True, Running = False\<rparr>]\<rparr>"

definition exWork7 :: Pod where
  "exWork7 =
     \<lparr>PodName = ''w-7'', StepNameLabel = ''w'', ReplicaAnnotation = ''7'',
      PodPhase = ''Succeeded'', PodMessage = ''gone'',
      ContainerStatuses =
        [\<lparr>ContainerName = ''sidecar'', Terminated = False, Running = True\<rparr>,
         \<lparr>ContainerName = ''main'', Terminated = True, Running = False\<rparr>]\<rparr>"

definition exWorkKube :: kube where
  "exWorkKube =
     \<lparr>stepObject = Some exWorkStep, podObjects = [exWork0, exWork1, exWork7], requests = []\<rparr>"

definition exWorkNewStatus :: StepStatus where
  "exWorkNewStatus =
     \<lparr>Phase = ''Failed'', Message = [], Replicas = 2, LastScaleTime = None,
      SourceStatuses = None, SinkStatues = None\<rparr>"

definition exWorkLocals :: locals where
  "exWorkLocals =
     \<lparr>lastReplicas = 2, replicas = 2, pods = [exWork0, exWork1, exWork7],
      newStatus = exWorkNewStatus\<rparr>"

definition exWorkKube1 :: kube where
  "exWorkKube1 =
     \<lparr>stepObject = Some (exWorkStep\<lparr>Status := Some exWorkNewStatus\<rparr>),
      podObjects = [exWork0, exWork1],
      requests = [CreatePod ''w-0'', CreatePod ''w-1'', ListPods ''w'', ExecKill ''w-1'',
                  DeletePod ''w-7'', PatchStatus (Json exWorkNewStatus)]\<rparr>"

text \<open>What a second run on the cluster that the first has left is to give.\<close>

definition exWorkLocals2 :: locals where
  "exWorkLocals2 =
     \<lparr>lastReplicas = 2, replicas = 2, pods = [exWork0, exWork1], newStatus = exWorkNewStatus\<rparr>"

definition exWorkKube2 :: kube where
  "exWorkKube2 =
     exWorkKube1\<lparr>requests := requests exWorkKube1 @
       [CreatePod ''w-0'', CreatePod ''w-1'', ListPods ''w'', ExecKill ''w-1'']\<rparr>"









section \<open>Lemmas\<close>

lemma requests_issue [simp]: "requests (issue r k) = requests k @ [r]"
  by (simp add: issue_def)

lemma stepObject_issue [simp]: "stepObject (issue r k) = stepObject k"
  by (simp add: issue_def)

lemma podObjects_issue [simp]: "podObjects (issue r k) = podObjects k"
  by (simp add: issue_def)

lemma kubeCreate_stepObject: "kubeCreate e p k = (err, k') \<Longrightarrow> stepObject k' = stepObject k"
  by (auto simp: kubeCreate_def Let_def split: option.splits if_splits)

lemma kubeDelete_stepObject: "kubeDelete e p k = (err, k') \<Longrightarrow> stepObject k' = stepObject k"
  by (auto simp: kubeDelete_def Let_def split: option.splits if_splits)

lemma kubeList_stepObject: "kubeList e n k = (res, k') \<Longrightarrow> stepObject k' = stepObject k"
  by (auto simp: kubeList_def Let_def split: option.splits if_splits)

lemma createPods_lt:
  "i < r \<Longrightarrow>
   createPods e st i r k =
     (case kubeCreate e (newPod st i) k of
        (err, k') \<Rightarrow>
          if IgnoreAlreadyExists err \<noteq> None then (err, k') else createPods e st (i + 1) r k')"
  by (subst createPods.simps) simp

lemma createPods_ge: "\<not> i < r \<Longrightarrow> createPods e st i r k = (None, k)"
  by (subst createPods.simps) simp

lemma createPods_stepObject:
  "createPods e st i r k = (err, k') \<Longrightarrow> stepObject k' = stepObject k"
proof (induction e st i r k rule: createPods.induct)
  case (1 e st i r k)
  show ?case
  proof (cases "i < r")
    case False
    with "1.prems" show ?thesis by (simp add: createPods_ge)
  next
    case True
    obtain err1 k1 where c: "kubeCreate e (newPod st i) k = (err1, k1)"
      by (cases "kubeCreate e (newPod st i) k")
    show ?thesis
    proof (cases "IgnoreAlreadyExists err1 \<noteq> None")
      case True
      with \<open>i < r\<close> c "1.prems" have "k' = k1" by (simp add: createPods_lt)
      with c show ?thesis by (simp add: kubeCreate_stepObject)
    next
      case False
      with \<open>i < r\<close> c "1.prems" have "createPods e st (i + 1) r k1 = (err, k')"
        by (simp add: createPods_lt)
      with "1.IH" [OF \<open>i < r\<close> c [symmetric]] False have "stepObject k' = stepObject k1"
        by simp
      with c show ?thesis by (simp add: kubeCreate_stepObject)
    qed
  qed
qed

lemma killSidecar_stepObject:
  "killSidecar e p css k = (err, k') \<Longrightarrow> stepObject k' = stepObject k"
  by (induction css arbitrary: k) (auto simp: Let_def split: if_splits option.splits)

lemma killSidecar_podObjects:
  "killSidecar e p css k = (err, k') \<Longrightarrow> podObjects k' = podObjects k"
  by (induction css arbitrary: k) (auto simp: Let_def split: if_splits option.splits)

lemma inspectPods_stepObject:
  "inspectPods h e r ps ns k = (err, ns', k') \<Longrightarrow> stepObject k' = stepObject k"
proof (induction ps arbitrary: ns k)
  case Nil
  then show ?case by simp
next
  case (Cons p ps)
  show ?case
  proof (cases "fst (Atoi (ReplicaAnnotation p)) \<ge> r")
    case True
    obtain e1 k1 where d: "kubeDelete e p k = (e1, k1)" by (cases "kubeDelete e p k")
    with True Cons.prems Cons.IH [of ns k1] show ?thesis
      by (auto simp: kubeDelete_stepObject split: option.splits)
  next
    case False
    obtain e1 k1 where d: "killSidecar e p (ContainerStatuses p) k = (e1, k1)"
      by (cases "killSidecar e p (ContainerStatuses p) k")
    with False Cons.prems Cons.IH [of _ k1] show ?thesis
      by (auto simp: Let_def killSidecar_stepObject split: option.splits if_splits)
  qed
qed

lemma inspectPods_frame:
  "inspectPods h e r ps ns k = (err, ns', k') \<Longrightarrow>
   Replicas ns' = Replicas ns \<and> LastScaleTime ns' = LastScaleTime ns \<and>
   SourceStatuses ns' = SourceStatuses ns \<and> SinkStatues ns' = SinkStatues ns"
proof (induction ps arbitrary: ns k)
  case Nil
  then show ?case by simp
next
  case (Cons p ps)
  show ?case
  proof (cases "fst (Atoi (ReplicaAnnotation p)) \<ge> r")
    case True
    obtain e1 k1 where d: "kubeDelete e p k = (e1, k1)" by (cases "kubeDelete e p k")
    with True Cons.prems Cons.IH [of ns k1] show ?thesis
      by (auto split: option.splits)
  next
    case False
    obtain e1 k1 where d: "killSidecar e p (ContainerStatuses p) k = (e1, k1)"
      by (cases "killSidecar e p (ContainerStatuses p) k")
    with False Cons.prems Cons.IH [of _ k1] show ?thesis
      by (auto simp: Let_def inspectStatus_def split: option.splits if_splits)
  qed
qed

lemma reconcileRun_locals:
  assumes "reconcileRun h e k = (err, Some l, k')"
  shows "\<exists>st status k1 k2 k3.
           kubeGet e k = Inr st \<and> DeletionTimestamp st = None \<and> Status st = Some status \<and>
           lastReplicas l = GetReplicas status \<and> replicas l = scaledReplicas h e st status \<and>
           createPods e st 0 (replicas l) k = (None, k1) \<and>
           kubeList e (Name st) k1 = (Inr (pods l), k2) \<and>
           inspectPods h e (replicas l) (pods l)
             (initialStatus h e (lastReplicas l) (replicas l)) k2 = (None, newStatus l, k3) \<and>
           patchStatus e status (newStatus l) k3 = (err, k')"
  using assms
  by (auto simp: reconcileRun_def Let_def
      split: sum.splits option.splits prod.splits if_splits)

lemma kubeCreate_requests:
  "kubeCreate e p k = (err, k') \<Longrightarrow> requests k' = requests k @ [CreatePod (PodName p)]"
  by (auto simp: kubeCreate_def Let_def split: option.splits if_splits)

lemma kubeDelete_requests:
  "kubeDelete e p k = (err, k') \<Longrightarrow> requests k' = requests k @ [DeletePod (PodName p)]"
  by (auto simp: kubeDelete_def Let_def split: option.splits if_splits)

lemma kubeList_requests:
  "kubeList e n k = (res, k') \<Longrightarrow> requests k' = requests k @ [ListPods n]"
  by (auto simp: kubeList_def Let_def split: option.splits if_splits)

lemma extends_refl: "extends k k"
  by (simp add: extends_def)

lemma extends_trans: "extends k k1 \<Longrightarrow> extends k1 k2 \<Longrightarrow> extends k k2"
  by (fastforce simp: extends_def)

lemma extends_issued: "extends k k' \<Longrightarrow> \<forall>x \<in> set (issued k k'). \<not> isPatch x"
  by (auto simp: extends_def issued_def)

lemma kubeCreate_extends: "kubeCreate e p k = (err, k') \<Longrightarrow> extends k k'"
  by (auto simp: extends_def isPatch_def dest: kubeCreate_requests)

lemma kubeDelete_extends: "kubeDelete e p k = (err, k') \<Longrightarrow> extends k k'"
  by (auto simp: extends_def isPatch_def dest: kubeDelete_requests)

lemma kubeList_extends: "kubeList e n k = (res, k') \<Longrightarrow> extends k k'"
  by (auto simp: extends_def isPatch_def dest: kubeList_requests)

lemma createPods_extends: "createPods e st i r k = (err, k') \<Longrightarrow> extends k k'"
proof (induction e st i r k rule: createPods.induct)
  case (1 e st i r k)
  show ?case
  proof (cases "i < r")
    case False
    with "1.prems" show ?thesis by (simp add: createPods_ge extends_refl)
  next
    case True
    obtain err1 k1 where c: "kubeCreate e (newPod st i) k = (err1, k1)"
      by (cases "kubeCreate e (newPod st i) k")
    show ?thesis
    proof (cases "IgnoreAlreadyExists err1 \<noteq> None")
      case True
      with \<open>i < r\<close> c "1.prems" have "k' = k1" by (simp add: createPods_lt)
      with c show ?thesis by (simp add: kubeCreate_extends)
    next
      case False
      with \<open>i < r\<close> c "1.prems" have "createPods e st (i + 1) r k1 = (err, k')"
        by (simp add: createPods_lt)
      with "1.IH" [OF \<open>i < r\<close> c [symmetric]] False have "extends k1 k'"
        by simp
      with c show ?thesis by (blast intro: extends_trans kubeCreate_extends)
    qed
  qed
qed

lemma killSidecar_extends: "killSidecar e p css k = (err, k') \<Longrightarrow> extends k k'"
proof (induction css arbitrary: k)
  case Nil
  then show ?case by (simp add: extends_refl)
next
  case (Cons s css)
  have step: "extends k (issue (ExecKill (PodName p)) k)"
    by (simp add: extends_def isPatch_def)
  from Cons.prems Cons.IH [of k] Cons.IH [of "issue (ExecKill (PodName p)) k"] step
  show ?case
    by (auto simp: Let_def extends_refl split: if_splits option.splits
        intro: extends_trans)
qed

lemma inspectPods_extends:
  "inspectPods h e r ps ns k = (err, ns', k') \<Longrightarrow> extends k k'"
proof (induction ps arbitrary: ns k)
  case Nil
  then show ?case by (simp add: extends_refl)
next
  case (Cons p ps)
  show ?case
  proof (cases "fst (Atoi (ReplicaAnnotation p)) \<ge> r")
    case True
    obtain e1 k1 where d: "kubeDelete e p k = (e1, k1)" by (cases "kubeDelete e p k")
    with True Cons.prems Cons.IH [of ns k1] kubeDelete_extends [OF d] show ?thesis
      by (auto split: option.splits intro: extends_trans)
  next
    case False
    obtain e1 k1 where d: "killSidecar e p (ContainerStatuses p) k = (e1, k1)"
      by (cases "killSidecar e p (ContainerStatuses p) k")
    with False Cons.prems Cons.IH [of _ k1] killSidecar_extends [OF d] show ?thesis
      by (auto simp: Let_def split: option.splits if_splits intro: extends_trans)
  qed
qed

lemma issued_append:
  "requests k1 = requests k @ xs \<Longrightarrow> requests k2 = requests k1 @ ys \<Longrightarrow>
   issued k k2 = xs @ ys"
  by (simp add: issued_def)

lemma kubePatchStatus_requests:
  "kubePatchStatus e p k = (err, k') \<Longrightarrow> requests k' = requests k @ [PatchStatus p]"
  by (auto simp: kubePatchStatus_def Let_def split: option.splits)

text \<open>A run that does not reach line 195 issues no patch.\<close>

lemma reconcileRun_no_locals:
  assumes "reconcileRun h e k = (err, None, k')"
  shows "extends k k' \<and> stepObject k' = stepObject k"
proof -
  have a: "\<And>st r err1 k1. createPods e st 0 r k = (err1, k1) \<Longrightarrow>
             extends k k1 \<and> stepObject k1 = stepObject k"
    by (simp add: createPods_extends createPods_stepObject)
  have b: "\<And>n k1 res k2. kubeList e n k1 = (res, k2) \<Longrightarrow>
             extends k1 k2 \<and> stepObject k2 = stepObject k1"
    by (simp add: kubeList_extends kubeList_stepObject)
  have c: "\<And>r ps ns k2 err1 ns' k3. inspectPods h e r ps ns k2 = (err1, ns', k3) \<Longrightarrow>
             extends k2 k3 \<and> stepObject k3 = stepObject k2"
    by (simp add: inspectPods_extends inspectPods_stepObject)
  from assms show ?thesis
    apply (simp add: reconcileRun_def Let_def extends_refl
        split: sum.splits option.splits prod.splits if_splits)
    using a b c extends_trans apply metis+
    done
qed

lemma patchStatus_cases:
  assumes "patchStatus e status ns k = (err, k')"
  shows "(status = ns \<and> k' = k \<and> err = None) \<or>
         (status \<noteq> ns \<and> requests k' = requests k @ [PatchStatus (Json ns)] \<and>
          err = map_option FailedToPatch
                  (IgnoreConflict (case patchErr e of Some x \<Rightarrow> Some x
                     | None \<Rightarrow> (case stepObject k of None \<Rightarrow> Some NotFound | Some s \<Rightarrow> None))) \<and>
          stepObject k' =
            (case patchErr e of Some x \<Rightarrow> stepObject k
             | None \<Rightarrow> (case stepObject k of None \<Rightarrow> None
                 | Some s \<Rightarrow> Some (s\<lparr>Status := Some (applyMergePatch (Json ns)
                     (case Status s of None \<Rightarrow> emptyStatus | Some st \<Rightarrow> st))\<rparr>))))"
  using assms
  by (auto simp: patchStatus_def kubePatchStatus_def Let_def IgnoreConflict_def
      split: if_splits option.splits prod.splits)

lemma reconcileRun_reached:
  assumes "reconcileRun h e k = (err, Some l, k')"
  shows "\<exists>st status k3.
           getErr e = None \<and> stepObject k = Some st \<and> DeletionTimestamp st = None \<and>
           Status st = Some status \<and>
           lastReplicas l = GetReplicas status \<and> replicas l = scaledReplicas h e st status \<and>
           Replicas (newStatus l) = word_of_int (replicas l) \<and>
           LastScaleTime (newStatus l) =
             (if lastReplicas l \<noteq> replicas l then Some (clockNow e) else None) \<and>
           SourceStatuses (newStatus l) = None \<and> SinkStatues (newStatus l) = None \<and>
           extends k k3 \<and> stepObject k3 = stepObject k \<and>
           patchStatus e status (newStatus l) k3 = (err, k')"
proof -
  from reconcileRun_locals [OF assms] obtain st status k1 k2 k3 where
    g: "kubeGet e k = Inr st" and d: "DeletionTimestamp st = None" and
    s: "Status st = Some status" and
    lr: "lastReplicas l = GetReplicas status" and
    r: "replicas l = scaledReplicas h e st status" and
    c: "createPods e st 0 (replicas l) k = (None, k1)" and
    li: "kubeList e (Name st) k1 = (Inr (pods l), k2)" and
    i: "inspectPods h e (replicas l) (pods l)
          (initialStatus h e (lastReplicas l) (replicas l)) k2 = (None, newStatus l, k3)" and
    p: "patchStatus e status (newStatus l) k3 = (err, k')"
    by blast
  from g have g': "getErr e = None" "stepObject k = Some st"
    by (auto simp: kubeGet_def split: option.splits)
  from inspectPods_frame [OF i] have f:
    "Replicas (newStatus l) = word_of_int (replicas l)"
    "LastScaleTime (newStatus l) =
       (if lastReplicas l \<noteq> replicas l then Some (clockNow e) else None)"
    "SourceStatuses (newStatus l) = None" "SinkStatues (newStatus l) = None"
    by (simp_all add: initialStatus_def)
  have x: "extends k k3"
    using createPods_extends [OF c] kubeList_extends [OF li] inspectPods_extends [OF i]
    by (blast intro: extends_trans)
  have so: "stepObject k3 = stepObject k"
    using createPods_stepObject [OF c] kubeList_stepObject [OF li]
      inspectPods_stepObject [OF i] by simp
  from g' d s lr r f x so p show ?thesis by blast
qed

lemma filter_isPatch_extends:
  "extends k k3 \<Longrightarrow> requests k' = requests k3 @ ys \<Longrightarrow>
   filter isPatch (issued k k') = filter isPatch ys"
  by (auto simp: extends_def issued_def filter_empty_conv)

lemma reconcileRun_patches:
  assumes "reconcileRun h e k = (err, l, k')"
  shows "filter isPatch (issued k k') =
           (case l of
              None \<Rightarrow> []
            | Some v \<Rightarrow>
                if Some (newStatus v) \<noteq> storedStatus k then [PatchStatus (Json (newStatus v))]
                else [])"
proof (cases l)
  case None
  with assms reconcileRun_no_locals [of h e k err k'] have "extends k k'" by simp
  from filter_isPatch_extends [OF this, of k' "[]"] None show ?thesis by simp
next
  case (Some v)
  with assms have a: "reconcileRun h e k = (err, Some v, k')" by simp
  from reconcileRun_reached [OF a] obtain st status k3 where
    s: "stepObject k = Some st" "Status st = Some status" and
    x: "extends k k3" and
    p: "patchStatus e status (newStatus v) k3 = (err, k')"
    by blast
  from s have ss: "storedStatus k = Some status" by (simp add: storedStatus_def)
  from patchStatus_cases [OF p] show ?thesis
  proof
    assume "status = newStatus v \<and> k' = k3 \<and> err = None"
    with filter_isPatch_extends [OF x, of k' "[]"] Some ss show ?thesis by simp
  next
    assume b: "status \<noteq> newStatus v \<and>
      requests k' = requests k3 @ [PatchStatus (Json (newStatus v))] \<and>
      err = map_option FailedToPatch
              (IgnoreConflict (case patchErr e of Some x \<Rightarrow> Some x
                 | None \<Rightarrow> (case stepObject k3 of None \<Rightarrow> Some NotFound | Some s \<Rightarrow> None))) \<and>
      stepObject k' =
        (case patchErr e of Some x \<Rightarrow> stepObject k3
         | None \<Rightarrow> (case stepObject k3 of None \<Rightarrow> None
             | Some s \<Rightarrow> Some (s\<lparr>Status := Some (applyMergePatch (Json (newStatus v))
                 (case Status s of None \<Rightarrow> emptyStatus | Some st \<Rightarrow> st))\<rparr>)))"
    then have "filter isPatch (issued k k') = [PatchStatus (Json (newStatus v))]"
      using filter_isPatch_extends [OF x, of k' "[PatchStatus (Json (newStatus v))]"]
      by (simp add: isPatch_def)
    with b Some ss show ?thesis by auto
  qed
qed

lemma reconcileRun_stored:
  assumes "reconcileRun h e k = (err, l, k')"
  shows "storedStatus k' = storedStatus k \<or>
         (\<exists>v status. l = Some v \<and> storedStatus k = Some status \<and> newStatus v \<noteq> status \<and>
            patchErr e = None \<and>
            storedStatus k' = Some (applyMergePatch (Json (newStatus v)) status))"
proof (cases l)
  case None
  with assms reconcileRun_no_locals [of h e k err k'] show ?thesis
    by (simp add: storedStatus_def)
next
  case (Some v)
  with assms have a: "reconcileRun h e k = (err, Some v, k')" by simp
  from reconcileRun_reached [OF a] obtain st status k3 where
    s: "stepObject k = Some st" "Status st = Some status" and
    so: "stepObject k3 = stepObject k" and
    p: "patchStatus e status (newStatus v) k3 = (err, k')"
    by blast
  from s have ss: "storedStatus k = Some status" by (simp add: storedStatus_def)
  from patchStatus_cases [OF p] s so ss Some show ?thesis
    by (auto simp: storedStatus_def split: option.splits)
qed

lemma reconcileRun_error:
  assumes "reconcileRun h e k = (err, Some v, k')"
  shows "\<exists>status. storedStatus k = Some status \<and>
           err = (if newStatus v = status then None
                  else map_option FailedToPatch (IgnoreConflict (patchErr e)))"
proof -
  from reconcileRun_reached [OF assms] obtain st status k3 where
    s: "stepObject k = Some st" "Status st = Some status" and
    so: "stepObject k3 = stepObject k" and
    p: "patchStatus e status (newStatus v) k3 = (err, k')"
    by blast
  from s have ss: "storedStatus k = Some status" by (simp add: storedStatus_def)
  from patchStatus_cases [OF p] s so ss show ?thesis
    by (auto simp: IgnoreConflict_def split: option.splits)
qed

lemma applyEntries_Nil [simp]: "applyEntries [] m = m"
  by (simp add: applyEntries_def)

lemma entriesOf_None [simp]: "entriesOf None = []"
  by (simp add: entriesOf_def)

section \<open>Runs that reach the comparison\<close>

lemma kubeCreate_tolerated:
  "IgnoreAlreadyExists (createErr e (PodName p)) = None \<Longrightarrow>
   IgnoreAlreadyExists (fst (kubeCreate e p k)) = None"
  by (auto simp: kubeCreate_def Let_def IgnoreAlreadyExists_def split: option.splits if_splits)

lemma createPods_tolerated:
  "\<forall>n. IgnoreAlreadyExists (createErr e n) = None \<Longrightarrow> fst (createPods e st i r k) = None"
proof (induction e st i r k rule: createPods.induct)
  case (1 e st i r k)
  show ?case
  proof (cases "i < r")
    case False
    then show ?thesis by (simp add: createPods_ge)
  next
    case True
    obtain err1 k1 where c: "kubeCreate e (newPod st i) k = (err1, k1)"
      by (cases "kubeCreate e (newPod st i) k")
    from kubeCreate_tolerated [of e "newPod st i" k] "1.prems" c
    have i: "IgnoreAlreadyExists err1 = None" by simp
    with "1.IH" [OF True c [symmetric]] "1.prems"
    have "fst (createPods e st (i + 1) r k1) = None" by simp
    with True c i show ?thesis by (simp add: createPods_lt)
  qed
qed

lemma killSidecar_tolerated:
  "\<forall>n. executorErr e n = None \<Longrightarrow> \<forall>n. IgnoreContainerNotFound (streamErr e n) = None \<Longrightarrow>
   fst (killSidecar e p css k) = None"
  by (induction css arbitrary: k) (auto simp: Let_def split: option.splits)

lemma kubeDelete_tolerated:
  "IgnoreNotFound (deleteErr e (PodName p)) = None \<Longrightarrow>
   IgnoreNotFound (fst (kubeDelete e p k)) = None"
  by (auto simp: kubeDelete_def Let_def IgnoreNotFound_def split: option.splits if_splits)

lemma inspectPods_tolerated:
  assumes "\<forall>n. IgnoreNotFound (deleteErr e n) = None" "\<forall>n. executorErr e n = None"
    "\<forall>n. IgnoreContainerNotFound (streamErr e n) = None"
  shows "fst (inspectPods h e r ps ns k) = None"
proof (induction ps arbitrary: ns k)
  case Nil
  then show ?case by simp
next
  case (Cons p ps)
  show ?case
  proof (cases "fst (Atoi (ReplicaAnnotation p)) \<ge> r")
    case True
    obtain e1 k1 where d: "kubeDelete e p k = (e1, k1)" by (cases "kubeDelete e p k")
    from kubeDelete_tolerated [of e p k] assms(1) d have "IgnoreNotFound e1 = None" by simp
    with True d Cons.IH [of ns k1] show ?thesis by simp
  next
    case False
    obtain e1 k1 where d: "killSidecar e p (ContainerStatuses p) k = (e1, k1)"
      by (cases "killSidecar e p (ContainerStatuses p) k")
    from killSidecar_tolerated [OF assms(2,3), of p "ContainerStatuses p" k] d
    have "e1 = None" by simp
    with False d Cons.IH [of "inspectStatus h ns p" k1] show ?thesis by (simp add: Let_def)
  qed
qed

text \<open>
  A run reaches line 195 when the step is there, is not being deleted and has a status,
  and no call fails otherwise than by what the code ignores.
\<close>

lemma reconcileRun_completes:
  assumes "getErr e = None" "stepObject k = Some st" "DeletionTimestamp st = None"
    "Status st = Some status" "listErr e = None"
    "\<forall>n. IgnoreAlreadyExists (createErr e n) = None"
    "\<forall>n. IgnoreNotFound (deleteErr e n) = None"
    "\<forall>n. executorErr e n = None"
    "\<forall>n. IgnoreContainerNotFound (streamErr e n) = None"
  shows "\<exists>v. fst (snd (reconcileRun h e k)) = Some v"
proof -
  let ?r = "scaledReplicas h e st status"
  obtain cerr k1 where c: "createPods e st 0 ?r k = (cerr, k1)"
    by (cases "createPods e st 0 ?r k")
  from createPods_tolerated [OF assms(6), of st 0 ?r k] c have ce: "cerr = None" by simp
  obtain res k2 where li: "kubeList e (Name st) k1 = (res, k2)"
    by (cases "kubeList e (Name st) k1")
  with assms(5) obtain ps where res: "res = Inr ps"
    by (auto simp: kubeList_def Let_def)
  obtain er ns k3 where
    i: "inspectPods h e ?r ps (initialStatus h e (GetReplicas status) ?r) k2 = (er, ns, k3)"
    by (cases "inspectPods h e ?r ps (initialStatus h e (GetReplicas status) ?r) k2")
  from inspectPods_tolerated [OF assms(7,8,9), of h ?r ps
      "initialStatus h e (GetReplicas status) ?r" k2] i
  have er: "er = None" by simp
  from assms(1,2) have g: "kubeGet e k = Inr st" by (simp add: kubeGet_def)
  from g assms(3,4) c ce li res i er show ?thesis
    by (simp add: reconcileRun_def Let_def split: prod.splits)
qed

section \<open>Runs of the examples\<close>

lemma exRun: "reconcileRun exHelpers exEnv exKube = (None, Some exLocals, exKube1)"
  by code_simp

lemma exQuietRun:
  "reconcileRun exHelpers exEnv exQuietKube =
     (None, Some exQuietLocals, exQuietKube\<lparr>requests := [CreatePod ''q-0'', ListPods ''q'']\<rparr>)"
  by code_simp

lemma exConflictRun:
  "fst (reconcileRun exHelpers (exEnv\<lparr>patchErr := Some Conflict\<rparr>) exKube) = None \<and>
   fst (snd (reconcileRun exHelpers (exEnv\<lparr>patchErr := Some Conflict\<rparr>) exKube)) = Some exLocals"
  by code_simp

text \<open>
  C7. A run of the controller reaches the comparison when the step is there, is not being
  deleted and has a status, and no call before it fails otherwise than by what the code
  ignores. A run that reaches the comparison issues one merge patch of the status if the
  status it has built differs from the status it has read, and none if they are equal; a
  run that does not reach the comparison issues none. A conflict from the patch is not
  returned as an error; any other failure of the patch is.
\<close>

theorem C7_patch_iff_unequal:
  assumes "reconcileRun h e k = (err, l, k')"
  shows "Reconcile h e k = (err, k') \<and>
         (l = None \<longrightarrow> filter isPatch (issued k k') = []) \<and>
         (\<forall>v. l = Some v \<longrightarrow>
            (\<exists>status. storedStatus k = Some status \<and>
               (newStatus v \<noteq> status \<longrightarrow>
                  filter isPatch (issued k k') = [PatchStatus (Json (newStatus v))]) \<and>
               (newStatus v = status \<longrightarrow> filter isPatch (issued k k') = [] \<and> err = None) \<and>
               (patchErr e = Some Conflict \<longrightarrow> err = None) \<and>
               (\<forall>x. newStatus v \<noteq> status \<and> patchErr e = Some x \<and> x \<noteq> Conflict \<longrightarrow>
                  err = Some (FailedToPatch x)))) \<and>
         (getErr e = None \<and> listErr e = None \<and>
          (\<forall>n. IgnoreAlreadyExists (createErr e n) = None) \<and>
          (\<forall>n. IgnoreNotFound (deleteErr e n) = None) \<and>
          (\<forall>n. executorErr e n = None) \<and>
          (\<forall>n. IgnoreContainerNotFound (streamErr e n) = None) \<and>
          (\<exists>st status. stepObject k = Some st \<and> DeletionTimestamp st = None \<and>
             Status st = Some status) \<longrightarrow>
          (\<exists>v. l = Some v \<and>
             filter isPatch (issued k k') =
               (if Some (newStatus v) = storedStatus k then []
                else [PatchStatus (Json (newStatus v))])))"
proof (intro conjI allI impI)
  show "Reconcile h e k = (err, k')" using assms by (simp add: Reconcile_def)
next
  assume "l = None"
  with reconcileRun_patches [OF assms] show "filter isPatch (issued k k') = []" by simp
next
  fix v
  assume l: "l = Some v"
  with assms have a: "reconcileRun h e k = (err, Some v, k')" by simp
  from reconcileRun_error [OF a] obtain status where
    s: "storedStatus k = Some status" and
    er: "err = (if newStatus v = status then None
                else map_option FailedToPatch (IgnoreConflict (patchErr e)))"
    by blast
  from reconcileRun_patches [OF assms] l s have
    p: "filter isPatch (issued k k') =
          (if newStatus v \<noteq> status then [PatchStatus (Json (newStatus v))] else [])"
    by auto
  from s er p show "\<exists>status. storedStatus k = Some status \<and>
      (newStatus v \<noteq> status \<longrightarrow>
         filter isPatch (issued k k') = [PatchStatus (Json (newStatus v))]) \<and>
      (newStatus v = status \<longrightarrow> filter isPatch (issued k k') = [] \<and> err = None) \<and>
      (patchErr e = Some Conflict \<longrightarrow> err = None) \<and>
      (\<forall>x. newStatus v \<noteq> status \<and> patchErr e = Some x \<and> x \<noteq> Conflict \<longrightarrow>
         err = Some (FailedToPatch x))"
    by (auto simp: IgnoreConflict_def)
next
  assume t: "getErr e = None \<and> listErr e = None \<and>
          (\<forall>n. IgnoreAlreadyExists (createErr e n) = None) \<and>
          (\<forall>n. IgnoreNotFound (deleteErr e n) = None) \<and>
          (\<forall>n. executorErr e n = None) \<and>
          (\<forall>n. IgnoreContainerNotFound (streamErr e n) = None) \<and>
          (\<exists>st status. stepObject k = Some st \<and> DeletionTimestamp st = None \<and>
             Status st = Some status)"
  then obtain st status where
    so: "stepObject k = Some st" "DeletionTimestamp st = None" "Status st = Some status"
    by blast
  from t have g: "getErr e = None" and li: "listErr e = None" and
    c: "\<forall>n. IgnoreAlreadyExists (createErr e n) = None" and
    d: "\<forall>n. IgnoreNotFound (deleteErr e n) = None" and
    x: "\<forall>n. executorErr e n = None" and
    y: "\<forall>n. IgnoreContainerNotFound (streamErr e n) = None"
    by simp_all
  from reconcileRun_completes [OF g so li c d x y, of h] assms obtain v where
    l: "l = Some v" by auto
  with reconcileRun_patches [OF assms]
  have "filter isPatch (issued k k') =
          (if Some (newStatus v) = storedStatus k then []
           else [PatchStatus (Json (newStatus v))])"
    by simp
  with l show "\<exists>v. l = Some v \<and>
      filter isPatch (issued k k') =
        (if Some (newStatus v) = storedStatus k then []
         else [PatchStatus (Json (newStatus v))])"
    by blast
qed

theorem C7_patch_iff_unequal_witness:
  "map_option newStatus (fst (snd (reconcileRun exHelpers exEnv exKube))) = Some exNewStatus \<and>
   Some exNewStatus \<noteq> storedStatus exKube \<and>
   filter isPatch (issued exKube (snd (snd (reconcileRun exHelpers exEnv exKube)))) =
     [PatchStatus (Json exNewStatus)] \<and>
   map_option newStatus (fst (snd (reconcileRun exHelpers exEnv exQuietKube))) =
     storedStatus exQuietKube \<and>
   filter isPatch (issued exQuietKube (snd (snd (reconcileRun exHelpers exEnv exQuietKube)))) = []"
proof -
  have s: "storedStatus exKube = Some exStatus" "storedStatus exQuietKube = Some exQuietStatus"
    by (simp_all add: storedStatus_def exKube_def exStep_def exQuietKube_def exQuietStep_def)
  have n: "exNewStatus \<noteq> exStatus"
    by (simp add: exNewStatus_def exStatus_def)
  have e: "getErr exEnv = None \<and> listErr exEnv = None \<and>
          (\<forall>n. IgnoreAlreadyExists (createErr exEnv n) = None) \<and>
          (\<forall>n. IgnoreNotFound (deleteErr exEnv n) = None) \<and>
          (\<forall>n. executorErr exEnv n = None) \<and>
          (\<forall>n. IgnoreContainerNotFound (streamErr exEnv n) = None)"
    by (simp add: exEnv_def IgnoreAlreadyExists_def IgnoreNotFound_def
        IgnoreContainerNotFound_def)
  have k: "\<exists>st status. stepObject exKube = Some st \<and> DeletionTimestamp st = None \<and>
             Status st = Some status"
    by (simp add: exKube_def exStep_def)
  have q: "\<exists>st status. stepObject exQuietKube = Some st \<and> DeletionTimestamp st = None \<and>
             Status st = Some status"
    by (simp add: exQuietKube_def exQuietStep_def)
  from C7_patch_iff_unequal [OF exRun] e k obtain v where
    v: "Some exLocals = Some v"
       "filter isPatch (issued exKube exKube1) =
          (if Some (newStatus v) = storedStatus exKube then []
           else [PatchStatus (Json (newStatus v))])"
    by blast
  from v s n have a: "filter isPatch (issued exKube exKube1) = [PatchStatus (Json exNewStatus)]"
    by (auto simp: exLocals_def)
  from C7_patch_iff_unequal [OF exQuietRun] e q obtain w where
    w: "Some exQuietLocals = Some w"
       "filter isPatch (issued exQuietKube
          (exQuietKube\<lparr>requests := [CreatePod ''q-0'', ListPods ''q'']\<rparr>)) =
          (if Some (newStatus w) = storedStatus exQuietKube then []
           else [PatchStatus (Json (newStatus w))])"
    by blast
  from w s have b: "filter isPatch (issued exQuietKube
          (exQuietKube\<lparr>requests := [CreatePod ''q-0'', ListPods ''q'']\<rparr>)) = []"
    by (auto simp: exQuietLocals_def)
  from a b s n show ?thesis
    by (simp add: exRun exQuietRun exLocals_def exQuietLocals_def)
qed

text \<open>
  C8. A run of the controller builds a status when the step is there, is not being deleted
  and has a status, and no call fails otherwise than by what the code ignores. In a run
  that builds a status, \<open>LastScaleTime\<close> of that status is set, to the reading of the
  clock, if and only if the replica count of the run differs from the one of the status
  read; when the count does not change it stays unset, and the patch leaves the stored
  \<open>LastScaleTime\<close> as it is.
\<close>

theorem C8_last_scale_time:
  assumes "reconcileRun h e k = (err, l, k')"
  shows "(\<forall>v. l = Some v \<longrightarrow>
            (LastScaleTime (newStatus v) = Some (clockNow e) \<longleftrightarrow>
               replicas v \<noteq> lastReplicas v) \<and>
            (replicas v = lastReplicas v \<longrightarrow>
               LastScaleTime (newStatus v) = None \<and>
               storedLastScaleTime k' = storedLastScaleTime k) \<and>
            (\<exists>st status. stepObject k = Some st \<and> Status st = Some status \<and>
               lastReplicas v = GetReplicas status \<and>
               replicas v = scaledReplicas h e st status)) \<and>
         (getErr e = None \<and> listErr e = None \<and>
          (\<forall>n. IgnoreAlreadyExists (createErr e n) = None) \<and>
          (\<forall>n. IgnoreNotFound (deleteErr e n) = None) \<and>
          (\<forall>n. executorErr e n = None) \<and>
          (\<forall>n. IgnoreContainerNotFound (streamErr e n) = None) \<and>
          stepObject k = Some st \<and> DeletionTimestamp st = None \<and> Status st = Some status \<longrightarrow>
          (\<exists>v. l = Some v \<and>
             LastScaleTime (newStatus v) =
               (if scaledReplicas h e st status \<noteq> GetReplicas status
                then Some (clockNow e) else None)))"
proof (intro conjI allI impI)
  fix v
  assume l: "l = Some v"
  with assms have run: "reconcileRun h e k = (err, Some v, k')" by simp
  from reconcileRun_reached [OF run] obtain st0 status0 where
    s: "stepObject k = Some st0" "Status st0 = Some status0"
       "lastReplicas v = GetReplicas status0" "replicas v = scaledReplicas h e st0 status0" and
    t: "LastScaleTime (newStatus v) =
          (if lastReplicas v \<noteq> replicas v then Some (clockNow e) else None)"
    by blast
  from t show "LastScaleTime (newStatus v) = Some (clockNow e) \<longleftrightarrow>
      replicas v \<noteq> lastReplicas v"
    by auto
  from s show "\<exists>st status. stepObject k = Some st \<and> Status st = Some status \<and>
      lastReplicas v = GetReplicas status \<and> replicas v = scaledReplicas h e st status"
    by blast
  assume same: "replicas v = lastReplicas v"
  with t show n: "LastScaleTime (newStatus v) = None" by simp
  from reconcileRun_stored [OF run] show "storedLastScaleTime k' = storedLastScaleTime k"
  proof
    assume "storedStatus k' = storedStatus k"
    then show ?thesis by (simp add: storedLastScaleTime_def)
  next
    assume "\<exists>v' status. Some v = Some v' \<and> storedStatus k = Some status \<and>
      newStatus v' \<noteq> status \<and> patchErr e = None \<and>
      storedStatus k' = Some (applyMergePatch (Json (newStatus v')) status)"
    with n show ?thesis
      by (auto simp: storedLastScaleTime_def applyMergePatch_def Json_def)
  qed
next
  assume t: "getErr e = None \<and> listErr e = None \<and>
          (\<forall>n. IgnoreAlreadyExists (createErr e n) = None) \<and>
          (\<forall>n. IgnoreNotFound (deleteErr e n) = None) \<and>
          (\<forall>n. executorErr e n = None) \<and>
          (\<forall>n. IgnoreContainerNotFound (streamErr e n) = None) \<and>
          stepObject k = Some st \<and> DeletionTimestamp st = None \<and> Status st = Some status"
  then have g: "getErr e = None" and li: "listErr e = None" and
    c: "\<forall>n. IgnoreAlreadyExists (createErr e n) = None" and
    d: "\<forall>n. IgnoreNotFound (deleteErr e n) = None" and
    x: "\<forall>n. executorErr e n = None" and
    y: "\<forall>n. IgnoreContainerNotFound (streamErr e n) = None" and
    so: "stepObject k = Some st" "DeletionTimestamp st = None" "Status st = Some status"
    by simp_all
  from reconcileRun_completes [OF g so li c d x y, of h] assms obtain v where
    l: "l = Some v" by auto
  with assms have run: "reconcileRun h e k = (err, Some v, k')" by simp
  from reconcileRun_reached [OF run] so have
    "LastScaleTime (newStatus v) =
       (if scaledReplicas h e st status \<noteq> GetReplicas status then Some (clockNow e) else None)"
    by auto
  with l show "\<exists>v. l = Some v \<and>
      LastScaleTime (newStatus v) =
        (if scaledReplicas h e st status \<noteq> GetReplicas status
         then Some (clockNow e) else None)"
    by blast
qed

theorem C8_last_scale_time_witness:
  "map_option (\<lambda>v. LastScaleTime (newStatus v))
     (fst (snd (reconcileRun exHelpers exEnv exKube))) = Some (Some (clockNow exEnv)) \<and>
   scaledReplicas exHelpers exEnv exStep exStatus = 3 \<and> GetReplicas exStatus = 1 \<and>
   map_option (\<lambda>v. LastScaleTime (newStatus v))
     (fst (snd (reconcileRun exHelpers exEnv exQuietKube))) = Some None \<and>
   scaledReplicas exHelpers exEnv exQuietStep exQuietStatus = 1 \<and>
   GetReplicas exQuietStatus = 1 \<and>
   storedLastScaleTime (snd (snd (reconcileRun exHelpers exEnv exQuietKube))) =
     storedLastScaleTime exQuietKube"
proof -
  have e: "getErr exEnv = None \<and> listErr exEnv = None \<and>
          (\<forall>n. IgnoreAlreadyExists (createErr exEnv n) = None) \<and>
          (\<forall>n. IgnoreNotFound (deleteErr exEnv n) = None) \<and>
          (\<forall>n. executorErr exEnv n = None) \<and>
          (\<forall>n. IgnoreContainerNotFound (streamErr exEnv n) = None)"
    by (simp add: exEnv_def IgnoreAlreadyExists_def IgnoreNotFound_def
        IgnoreContainerNotFound_def)
  have k: "stepObject exKube = Some exStep \<and> DeletionTimestamp exStep = None \<and>
           Status exStep = Some exStatus"
    by (simp add: exKube_def exStep_def)
  have q: "stepObject exQuietKube = Some exQuietStep \<and> DeletionTimestamp exQuietStep = None \<and>
           Status exQuietStep = Some exQuietStatus"
    by (simp add: exQuietKube_def exQuietStep_def)
  have r: "scaledReplicas exHelpers exEnv exStep exStatus = 3" "GetReplicas exStatus = 1"
    "scaledReplicas exHelpers exEnv exQuietStep exQuietStatus = 1"
    "GetReplicas exQuietStatus = 1"
    by code_simp+
  note t1 = C8_last_scale_time [OF exRun, of exStep exStatus]
  note t2 = C8_last_scale_time [OF exQuietRun, of exQuietStep exQuietStatus]
  from t1 e k r obtain v where
    v: "Some exLocals = Some v" "LastScaleTime (newStatus v) = Some (clockNow exEnv)"
    by auto
  from t2 e q r obtain w where
    w: "Some exQuietLocals = Some w" "LastScaleTime (newStatus w) = None"
    by auto
  have "replicas exQuietLocals = lastReplicas exQuietLocals"
    by (simp add: exQuietLocals_def)
  with t2 have "storedLastScaleTime (exQuietKube\<lparr>requests := [CreatePod ''q-0'', ListPods ''q'']\<rparr>) =
      storedLastScaleTime exQuietKube"
    by simp
  with v w r show ?thesis by (simp add: exRun exQuietRun)
qed

text \<open>
  C10. The status that the controller builds has no source statuses and no sink statuses,
  the patch it issues names no metrics entry, and every run leaves the source and sink
  statuses of the stored status as they are.
\<close>

theorem C10_controller_keeps_metrics:
  assumes "reconcileRun h e k = (err, l, k')"
  shows "(\<forall>v. l = Some v \<longrightarrow>
            SourceStatuses (newStatus v) = None \<and> SinkStatues (newStatus v) = None) \<and>
         (\<forall>p. PatchStatus p \<in> set (issued k k') \<longrightarrow> patchSources p = [] \<and> patchSinks p = []) \<and>
         storedSources k' = storedSources k \<and> storedSinks k' = storedSinks k"
proof -
  have a: "SourceStatuses (newStatus v) = None \<and> SinkStatues (newStatus v) = None"
    if "l = Some v" for v
    using reconcileRun_reached [of h e k err v k'] assms that by auto
  have b: "patchSources p = [] \<and> patchSinks p = []" if "PatchStatus p \<in> set (issued k k')" for p
  proof -
    from that have "PatchStatus p \<in> set (filter isPatch (issued k k'))"
      by (simp add: isPatch_def)
    with reconcileRun_patches [OF assms] obtain v where
      "l = Some v" "p = Json (newStatus v)"
      by (auto split: option.splits if_splits)
    with a [of v] show ?thesis by (simp add: Json_def)
  qed
  from reconcileRun_stored [OF assms] a
  have c: "storedSources k' = storedSources k \<and> storedSinks k' = storedSinks k"
    by (auto simp: storedSources_def storedSinks_def applyMergePatch_def Json_def)
  from a b c show ?thesis by blast
qed

theorem C10_controller_keeps_metrics_witness:
  "storedSources exKube1 = storedSources exKube \<and>
   storedSources exKube =
     Some [(''in'', \<lparr>Metrics = Some [(''0'', \<lparr>Replica = 0, Total = 7, Pending = 2500\<rparr>)]\<rparr>)] \<and>
   PatchStatus (Json exNewStatus) \<in> set (issued exKube exKube1) \<and>
   patchSources (Json exNewStatus) = []"
proof -
  have i: "PatchStatus (Json exNewStatus) \<in> set (issued exKube exKube1)"
    by (simp add: issued_def exKube_def exKube1_def)
  have s: "storedSources exKube =
     Some [(''in'', \<lparr>Metrics = Some [(''0'', \<lparr>Replica = 0, Total = 7, Pending = 2500\<rparr>)]\<rparr>)]"
    by (simp add: storedSources_def storedStatus_def exKube_def exStep_def exStatus_def)
  from C10_controller_keeps_metrics [OF exRun] i s show ?thesis by simp
qed

text \<open>
  C2. For every pending count and every policy whose ratio is defined and positive, the
  desired replica count is ceil(pending / ratio) clamped to [min, max], and clamped only
  from below when max is undefined; when the ratio is undefined the desired replica count
  is min, whatever the pending count.
\<close>

theorem C2_calculate_clamp:
  "(policy_ratio p = None \<longrightarrow> Calculate p pending = policy_min p) \<and>
   (\<forall>ratio. policy_ratio p = Some ratio \<and> 0 < ratio \<and> 0 \<le> pending \<longrightarrow>
      (case policy_max p of
         None \<Rightarrow> Calculate p pending = max (policy_min p) \<lceil>of_int pending / ratio\<rceil>
       | Some mx \<Rightarrow> policy_min p \<le> mx \<longrightarrow>
           Calculate p pending = max (policy_min p) (min mx \<lceil>of_int pending / ratio\<rceil>)))"
  by (auto simp: Calculate_def Let_def split: option.splits)

theorem C2_calculate_clamp_witness:
  "Calculate \<lparr>policy_min = 1, policy_max = Some 5, policy_ratio = Some 1000\<rparr> 2500 = 3 \<and>
   Calculate \<lparr>policy_min = 1, policy_max = None, policy_ratio = Some 1000\<rparr> 7001 = 8 \<and>
   Calculate \<lparr>policy_min = 0, policy_max = None, policy_ratio = None\<rparr> 2500 = 0"
proof -
  let ?p = "\<lparr>policy_min = 1, policy_max = Some 5, policy_ratio = Some (1000::rat)\<rparr>"
  let ?q = "\<lparr>policy_min = 1, policy_max = None, policy_ratio = Some (1000::rat)\<rparr>"
  let ?z = "\<lparr>policy_min = 0, policy_max = None, policy_ratio = (None::rat option)\<rparr>"
  from C2_calculate_clamp [of ?p 2500] have "Calculate ?p 2500 = 3"
    by (simp add: ceiling_eq_iff)
  moreover from C2_calculate_clamp [of ?q 7001] have "Calculate ?q 7001 = 8"
    by (simp add: ceiling_eq_iff)
  moreover from C2_calculate_clamp [of ?z 2500] have "Calculate ?z 2500 = 0"
    by simp
  ultimately show ?thesis by simp
qed

section \<open>The gate of one minute\<close>












section \<open>The loop over the pods\<close>

lemma killSidecar_ok:
  "killSidecar e p css k = (None, k') \<Longrightarrow>
   requests k' = requests k @ replicate (length (mainTerminated css)) (ExecKill (PodName p))"
proof (induction css arbitrary: k)
  case Nil
  then show ?case by (simp add: mainTerminated_def)
next
  case (Cons s css)
  show ?case
  proof (cases "ContainerName s \<noteq> ''main'' \<or> \<not> Terminated s")
    case True
    with Cons.prems have "killSidecar e p css k = (None, k')" by auto
    from Cons.IH [OF this] True show ?thesis by (auto simp: mainTerminated_def)
  next
    case False
    with Cons.prems have "killSidecar e p css (issue (ExecKill (PodName p)) k) = (None, k')"
      by (auto simp: Let_def split: option.splits)
    from Cons.IH [OF this] False show ?thesis
      by (simp add: mainTerminated_def replicate_app_Cons_same)
  qed
qed

lemma killSidecar_ok_errors:
  "killSidecar e p css k = (None, k') \<Longrightarrow> mainTerminated css \<noteq> [] \<Longrightarrow>
   executorErr e (PodName p) = None \<and> IgnoreContainerNotFound (streamErr e (PodName p)) = None"
proof (induction css arbitrary: k)
  case Nil
  then show ?case by (simp add: mainTerminated_def)
next
  case (Cons s css)
  show ?case
  proof (cases "ContainerName s \<noteq> ''main'' \<or> \<not> Terminated s")
    case True
    with Cons.prems have "killSidecar e p css k = (None, k')" "mainTerminated css \<noteq> []"
      by (auto simp: mainTerminated_def)
    from Cons.IH [OF this] show ?thesis .
  next
    case False
    with Cons.prems show ?thesis
      by (auto simp: Let_def split: option.splits)
  qed
qed

lemma inspectPods_ok:
  "inspectPods h e r ps ns k = (None, ns', k') \<Longrightarrow>
   ns' = foldl (inspectStatus h) ns (keptPods r ps) \<and>
   requests k' = requests k @ concat (map (podRequests r) ps)"
proof (induction ps arbitrary: ns k)
  case Nil
  then show ?case by (simp add: keptPods_def)
next
  case (Cons p ps)
  show ?case
  proof (cases "inRange r p")
    case False
    obtain e1 k1 where d: "kubeDelete e p k = (e1, k1)" by (cases "kubeDelete e p k")
    with False Cons.prems have "inspectPods h e r ps ns k1 = (None, ns', k')"
      by (auto simp: inRange_def split: option.splits)
    from Cons.IH [OF this] kubeDelete_requests [OF d] False show ?thesis
      by (simp add: keptPods_def podRequests_def)
  next
    case True
    obtain e1 k1 where d: "killSidecar e p (ContainerStatuses p) k = (e1, k1)"
      by (cases "killSidecar e p (ContainerStatuses p) k")
    with True Cons.prems have e1: "e1 = None" and
      i: "inspectPods h e r ps (inspectStatus h ns p) k1 = (None, ns', k')"
      by (auto simp: inRange_def Let_def split: option.splits)
    from Cons.IH [OF i] killSidecar_ok [of e p "ContainerStatuses p" k k1] d e1 True
    show ?thesis
      by (simp add: keptPods_def podRequests_def)
  qed
qed

lemma inspectPods_ok_errors:
  "inspectPods h e r ps ns k = (None, ns', k') \<Longrightarrow> p \<in> set ps \<Longrightarrow> inRange r p \<Longrightarrow>
   mainTerminated (ContainerStatuses p) \<noteq> [] \<Longrightarrow>
   executorErr e (PodName p) = None \<and> IgnoreContainerNotFound (streamErr e (PodName p)) = None"
proof (induction ps arbitrary: ns k)
  case Nil
  then show ?case by simp
next
  case (Cons q ps)
  show ?case
  proof (cases "inRange r q")
    case False
    obtain e1 k1 where d: "kubeDelete e q k = (e1, k1)" by (cases "kubeDelete e q k")
    with False Cons.prems have i: "inspectPods h e r ps ns k1 = (None, ns', k')" and "p \<in> set ps"
      by (auto simp: inRange_def split: option.splits)
    with Cons.IH [OF i] Cons.prems show ?thesis by simp
  next
    case True
    obtain e1 k1 where d: "killSidecar e q (ContainerStatuses q) k = (e1, k1)"
      by (cases "killSidecar e q (ContainerStatuses q) k")
    with True Cons.prems have e1: "e1 = None" and
      i: "inspectPods h e r ps (inspectStatus h ns q) k1 = (None, ns', k')"
      by (auto simp: inRange_def Let_def split: option.splits)
    show ?thesis
    proof (cases "p = q")
      case True
      with d e1 Cons.prems killSidecar_ok_errors [of e q "ContainerStatuses q" k k1]
      show ?thesis by simp
    next
      case False
      with Cons.prems have "p \<in> set ps" by simp
      with Cons.IH [OF i] Cons.prems show ?thesis by simp
    qed
  qed
qed

section \<open>The phase and the message\<close>

lemma Phase_inspectStatus:
  "Phase (inspectStatus h ns p) = MinStepPhase h (Phase ns) (inferPhase h p)"
  by (simp add: inspectStatus_def Let_def)

lemma Message_inspectStatus:
  "Message (inspectStatus h ns p) =
     (if Completed h (MinStepPhase h (Phase ns) (inferPhase h p)) \<and> PodMessage p \<noteq> []
      then PodMessage p else Message ns)"
  by (simp add: inspectStatus_def Let_def)

lemma Phase_foldl_inspectStatus:
  "Phase (foldl (inspectStatus h) ns ps) = phaseOf h (Phase ns) ps"
  by (induction ps arbitrary: ns) (simp_all add: phaseOf_def Phase_inspectStatus)

lemma phaseOf_snoc:
  "phaseOf h ph (ps @ [p]) = MinStepPhase h (phaseOf h ph ps) (inferPhase h p)"
  by (simp add: phaseOf_def)

lemma surfacing_snoc:
  "surfacing h ph (ps @ [p]) =
     surfacing h ph ps @
     (if PodMessage p \<noteq> [] \<and> Completed h (phaseOf h ph (ps @ [p])) then [length ps] else [])"
proof -
  have "filter (\<lambda>i. PodMessage ((ps @ [p]) ! i) \<noteq> [] \<and>
                   Completed h (phaseOf h ph (take (Suc i) (ps @ [p])))) [0..<length ps] =
        filter (\<lambda>i. PodMessage (ps ! i) \<noteq> [] \<and>
                   Completed h (phaseOf h ph (take (Suc i) ps))) [0..<length ps]"
    by (rule filter_cong) (auto simp: nth_append)
  then show ?thesis by (simp add: surfacing_def)
qed

lemma Message_foldl_inspectStatus:
  "Message (foldl (inspectStatus h) ns ps) =
     (if surfacing h (Phase ns) ps = [] then Message ns
      else PodMessage (ps ! last (surfacing h (Phase ns) ps)))"
proof (induction ps rule: rev_induct)
  case Nil
  then show ?case by (simp add: surfacing_def)
next
  case (snoc p ps)
  have m: "MinStepPhase h (phaseOf h (Phase ns) ps) (inferPhase h p) =
           phaseOf h (Phase ns) (ps @ [p])"
    by (simp add: phaseOf_snoc)
  have old: "\<And>i. i \<in> set (surfacing h (Phase ns) ps) \<Longrightarrow> i < length ps"
    by (simp add: surfacing_def)
  show ?case
  proof (cases "PodMessage p \<noteq> [] \<and> Completed h (phaseOf h (Phase ns) (ps @ [p]))")
    case True
    then show ?thesis
      by (simp add: Message_inspectStatus Phase_foldl_inspectStatus m surfacing_snoc)
  next
    case False
    then have s: "surfacing h (Phase ns) (ps @ [p]) = surfacing h (Phase ns) ps"
      by (auto simp: surfacing_snoc)
    have "surfacing h (Phase ns) ps \<noteq> [] \<Longrightarrow>
            (ps @ [p]) ! last (surfacing h (Phase ns) ps) = ps ! last (surfacing h (Phase ns) ps)"
      using old [of "last (surfacing h (Phase ns) ps)"] by (simp add: nth_append)
    with False snoc.IH s show ?thesis
      by (auto simp: Message_inspectStatus Phase_foldl_inspectStatus m)
  qed
qed

lemma foldl_min:
  assumes f: "\<forall>a \<in> A. \<forall>b \<in> A. f a b = (if rank a \<le> rank b then a else b)"
    and "x \<in> A" "set xs \<subseteq> A"
  shows "foldl f x xs \<in> insert x (set xs) \<and>
         (\<forall>p \<in> insert x (set xs). (rank (foldl f x xs) :: nat) \<le> rank p)"
  using assms(2,3)
proof (induction xs arbitrary: x)
  case Nil
  then show ?case by simp
next
  case (Cons y ys)
  from f Cons.prems have fxy: "f x y = (if rank x \<le> rank y then x else y)" by simp
  with Cons.prems have "f x y \<in> A" by auto
  from Cons.IH [OF this] Cons.prems have
    1: "foldl f (f x y) ys \<in> insert (f x y) (set ys)" and
    2: "\<forall>p \<in> insert (f x y) (set ys). rank (foldl f (f x y) ys) \<le> rank p"
    by auto
  from fxy have 3: "f x y \<in> {x, y}" "rank (f x y) \<le> rank x" "rank (f x y) \<le> rank y"
    by auto
  from 1 3 have "foldl f x (y # ys) \<in> insert x (set (y # ys))" by auto
  moreover from 2 3 have "\<forall>p \<in> insert x (set (y # ys)). rank (foldl f x (y # ys)) \<le> rank p"
    by (auto intro: order_trans)
  ultimately show ?case by simp
qed

lemma exWorkRun:
  "reconcileRun exHelpers exEnv exWorkKube = (None, Some exWorkLocals, exWorkKube1)"
  by code_simp

lemma reconcileRun_newStatus:
  assumes "reconcileRun h e k = (err, Some v, k')"
  shows "newStatus v =
           foldl (inspectStatus h) (initialStatus h e (lastReplicas v) (replicas v))
             (keptPods (replicas v) (pods v))"
proof -
  from reconcileRun_locals [OF assms] obtain k2 k3 where
    "inspectPods h e (replicas v) (pods v)
       (initialStatus h e (lastReplicas v) (replicas v)) k2 = (None, newStatus v, k3)"
    by blast
  from inspectPods_ok [OF this] show ?thesis by simp
qed

text \<open>
  C5, as the code has it. In a run that reaches the comparison, the phase of the new status
  is the minimum, under the order of the phases, of Unknown and the phases of the listed
  pods whose replica index is within the range; it is Unknown when there is no such pod.
  The message of the new status is the message of the last such pod, in the order of the
  listing, that carries a non-empty message and at which the minimum over Unknown and the
  pods up to it is a completed phase; it is empty when there is no such pod.
\<close>

theorem C5_phase_and_message:
  assumes "reconcileRun h e k = (err, Some v, k')"
  shows "Phase (newStatus v) = phaseOf h (StepUnknown h) (keptPods (replicas v) (pods v)) \<and>
         (keptPods (replicas v) (pods v) = [] \<longrightarrow>
            Phase (newStatus v) = StepUnknown h \<and> Message (newStatus v) = []) \<and>
         (\<forall>rank :: string \<Rightarrow> nat.
            (\<forall>a \<in> insert (StepUnknown h) (inferPhase h ` set (keptPods (replicas v) (pods v))).
             \<forall>b \<in> insert (StepUnknown h) (inferPhase h ` set (keptPods (replicas v) (pods v))).
               MinStepPhase h a b = (if rank a \<le> rank b then a else b)) \<longrightarrow>
            Phase (newStatus v) \<in>
              insert (StepUnknown h) (inferPhase h ` set (keptPods (replicas v) (pods v))) \<and>
            (\<forall>p \<in> insert (StepUnknown h) (inferPhase h ` set (keptPods (replicas v) (pods v))).
               rank (Phase (newStatus v)) \<le> rank p)) \<and>
         Message (newStatus v) =
           (if surfacing h (StepUnknown h) (keptPods (replicas v) (pods v)) = [] then []
            else PodMessage (keptPods (replicas v) (pods v) !
                   last (surfacing h (StepUnknown h) (keptPods (replicas v) (pods v)))))"
proof -
  let ?kept = "keptPods (replicas v) (pods v)"
  let ?A = "insert (StepUnknown h) (inferPhase h ` set ?kept)"
  let ?init = "initialStatus h e (lastReplicas v) (replicas v)"
  have ns: "newStatus v = foldl (inspectStatus h) ?init ?kept"
    by (rule reconcileRun_newStatus [OF assms])
  have i: "Phase ?init = StepUnknown h" "Message ?init = []"
    by (simp_all add: initialStatus_def)
  have ph: "Phase (newStatus v) = phaseOf h (StepUnknown h) ?kept"
    by (simp add: ns Phase_foldl_inspectStatus i)
  have msg: "Message (newStatus v) =
           (if surfacing h (StepUnknown h) ?kept = [] then []
            else PodMessage (?kept ! last (surfacing h (StepUnknown h) ?kept)))"
    using Message_foldl_inspectStatus [of h ?init ?kept] by (simp add: ns i)
  have empty: "?kept = [] \<longrightarrow> Phase (newStatus v) = StepUnknown h \<and> Message (newStatus v) = []"
    by (simp add: ns i)
  have mn: "Phase (newStatus v) \<in> ?A \<and> (\<forall>p \<in> ?A. rank (Phase (newStatus v)) \<le> rank p)"
    if f: "\<forall>a \<in> ?A. \<forall>b \<in> ?A. MinStepPhase h a b = (if rank a \<le> rank b then a else b)"
    for rank :: "string \<Rightarrow> nat"
  proof -
    have "StepUnknown h \<in> ?A" by simp
    moreover have "set (map (inferPhase h) ?kept) \<subseteq> ?A" by auto
    ultimately have
      "foldl (MinStepPhase h) (StepUnknown h) (map (inferPhase h) ?kept)
         \<in> insert (StepUnknown h) (set (map (inferPhase h) ?kept)) \<and>
       (\<forall>p \<in> insert (StepUnknown h) (set (map (inferPhase h) ?kept)).
          rank (foldl (MinStepPhase h) (StepUnknown h) (map (inferPhase h) ?kept)) \<le> rank p)"
      by (rule foldl_min [OF f])
    then show ?thesis unfolding ph phaseOf_def set_map by blast
  qed
  from ph empty mn msg show ?thesis by blast
qed

theorem C5_phase_and_message_witness:
  "Phase (newStatus exWorkLocals) = ''Failed'' \<and>
   exRank ''Failed'' \<le> exRank ''Running'' \<and> exRank ''Failed'' \<le> exRank ''Unknown'' \<and>
   keptPods (replicas exWorkLocals) (pods exWorkLocals) = [exWork0, exWork1] \<and>
   surfacing exHelpers ''Unknown'' [exWork0, exWork1] = [] \<and>
   Message (newStatus exWorkLocals) = []"
proof -
  have k: "keptPods (replicas exWorkLocals) (pods exWorkLocals) = [exWork0, exWork1]"
    by code_simp
  have s: "surfacing exHelpers ''Unknown'' [exWork0, exWork1] = []"
    by code_simp
  have u: "StepUnknown exHelpers = ''Unknown''"
    by (simp add: exHelpers_def)
  have m: "\<forall>a b. MinStepPhase exHelpers a b = (if exRank a \<le> exRank b then a else b)"
    by (simp add: exHelpers_def)
  have i: "inferPhase exHelpers exWork0 = ''Running''" "inferPhase exHelpers exWork1 = ''Failed''"
    by (simp_all add: exHelpers_def exWork0_def exWork1_def)
  note t = C5_phase_and_message [OF exWorkRun]
  from t [THEN conjunct2, THEN conjunct2, THEN conjunct1, THEN spec, of exRank] k u m i
  have "Phase (newStatus exWorkLocals) \<in> {''Unknown'', ''Running'', ''Failed''} \<and>
        exRank (Phase (newStatus exWorkLocals)) \<le> exRank ''Failed''"
    by simp
  moreover from t [THEN conjunct2, THEN conjunct2, THEN conjunct2] k s u
  have "Message (newStatus exWorkLocals) = []"
    by simp
  moreover have "exRank ''Failed'' = 0" "exRank ''Running'' = 2" "exRank ''Unknown'' = 4"
    by (simp_all add: exRank_def)
  ultimately show ?thesis using k s by auto
qed

text \<open>
  C5 as stated fails on the message: in the run of the example the phase of the new status
  is Failed, a completed phase, the pod of replica 0 carries the message m, and the message
  of the new status is empty. When that pod was inspected the phase so far was Running.
\<close>

theorem C5_message_counterexample:
  "reconcileRun exHelpers exEnv exWorkKube = (None, Some exWorkLocals, exWorkKube1) \<and>
   keptPods (replicas exWorkLocals) (pods exWorkLocals) = [exWork0, exWork1] \<and>
   Completed exHelpers (Phase (newStatus exWorkLocals)) \<and>
   PodMessage exWork0 = ''m'' \<and>
   Message (newStatus exWorkLocals) = []"
proof -
  have "keptPods (replicas exWorkLocals) (pods exWorkLocals) = [exWork0, exWork1]"
    by code_simp
  moreover have "Completed exHelpers (Phase (newStatus exWorkLocals))"
    by (simp add: exHelpers_def exWorkLocals_def exWorkNewStatus_def)
  moreover have "PodMessage exWork0 = ''m''" "Message (newStatus exWorkLocals) = []"
    by (simp_all add: exWork0_def exWorkLocals_def exWorkNewStatus_def)
  ultimately show ?thesis using exWorkRun by simp
qed

section \<open>The requests of a run\<close>

lemma createPods_requests:
  "createPods e st i r k = (None, k') \<Longrightarrow>
   requests k' = requests k @ map (\<lambda>j. CreatePod (podName st j)) [i..r - 1]"
proof (induction e st i r k rule: createPods.induct)
  case (1 e st i r k)
  show ?case
  proof (cases "i < r")
    case False
    with "1.prems" show ?thesis by (simp add: createPods_ge)
  next
    case True
    obtain err1 k1 where c: "kubeCreate e (newPod st i) k = (err1, k1)"
      by (cases "kubeCreate e (newPod st i) k")
    show ?thesis
    proof (cases "IgnoreAlreadyExists err1 \<noteq> None")
      case True
      with \<open>i < r\<close> c "1.prems" show ?thesis
        by (auto simp: createPods_lt IgnoreAlreadyExists_def)
    next
      case False
      with \<open>i < r\<close> c "1.prems" have "createPods e st (i + 1) r k1 = (None, k')"
        by (simp add: createPods_lt)
      with "1.IH" [OF \<open>i < r\<close> c [symmetric]] False
      have "requests k' = requests k1 @ map (\<lambda>j. CreatePod (podName st j)) [i + 1..r - 1]"
        by simp
      moreover have "[i..r - 1] = i # [i + 1..r - 1]"
        using \<open>i < r\<close> by (simp add: upto_rec1)
      ultimately show ?thesis
        using kubeCreate_requests [OF c] by (simp add: newPod_def)
    qed
  qed
qed

lemma kubeCreate_distinct:
  "kubeCreate e p k = (err, k') \<Longrightarrow> distinct (map PodName (podObjects k)) \<Longrightarrow>
   distinct (map PodName (podObjects k'))"
  by (auto simp: kubeCreate_def Let_def split: option.splits if_splits)

lemma createPods_distinct:
  "createPods e st i r k = (err, k') \<Longrightarrow> distinct (map PodName (podObjects k)) \<Longrightarrow>
   distinct (map PodName (podObjects k'))"
proof (induction e st i r k rule: createPods.induct)
  case (1 e st i r k)
  show ?case
  proof (cases "i < r")
    case False
    with "1.prems" show ?thesis by (simp add: createPods_ge)
  next
    case True
    obtain err1 k1 where c: "kubeCreate e (newPod st i) k = (err1, k1)"
      by (cases "kubeCreate e (newPod st i) k")
    from kubeCreate_distinct [OF c] "1.prems" have d: "distinct (map PodName (podObjects k1))"
      by simp
    show ?thesis
    proof (cases "IgnoreAlreadyExists err1 \<noteq> None")
      case True
      with \<open>i < r\<close> c "1.prems" d show ?thesis by (simp add: createPods_lt)
    next
      case False
      with \<open>i < r\<close> c "1.prems" have "createPods e st (i + 1) r k1 = (err, k')"
        by (simp add: createPods_lt)
      with "1.IH" [OF \<open>i < r\<close> c [symmetric]] False d show ?thesis by simp
    qed
  qed
qed

lemma kubeList_pods:
  "kubeList e n k = (Inr ps, k') \<Longrightarrow> ps = filter (\<lambda>p. StepNameLabel p = n) (podObjects k)"
  by (auto simp: kubeList_def Let_def split: option.splits)

lemma kubeList_podObjects:
  "kubeList e n k = (res, k') \<Longrightarrow> podObjects k' = podObjects k"
  by (auto simp: kubeList_def Let_def split: option.splits)

lemma reconcileRun_issued:
  assumes "reconcileRun h e k = (err, Some v, k')"
  shows "\<exists>st status. stepObject k = Some st \<and> Status st = Some status \<and>
           issued k k' =
             map (\<lambda>j. CreatePod (podName st j)) [0..replicas v - 1] @ [ListPods (Name st)] @
             concat (map (podRequests (replicas v)) (pods v)) @
             (if newStatus v \<noteq> status then [PatchStatus (Json (newStatus v))] else [])"
proof -
  from reconcileRun_locals [OF assms] obtain st status k1 k2 k3 where
    g: "kubeGet e k = Inr st" and s: "Status st = Some status" and
    c: "createPods e st 0 (replicas v) k = (None, k1)" and
    li: "kubeList e (Name st) k1 = (Inr (pods v), k2)" and
    i: "inspectPods h e (replicas v) (pods v)
          (initialStatus h e (lastReplicas v) (replicas v)) k2 = (None, newStatus v, k3)" and
    p: "patchStatus e status (newStatus v) k3 = (err, k')"
    by blast
  from g have g': "stepObject k = Some st" by (auto simp: kubeGet_def split: option.splits)
  have r3: "requests k3 = requests k @
      (map (\<lambda>j. CreatePod (podName st j)) [0..replicas v - 1] @ [ListPods (Name st)] @
       concat (map (podRequests (replicas v)) (pods v)))"
    using createPods_requests [OF c] kubeList_requests [OF li] inspectPods_ok [OF i] by simp
  from patchStatus_cases [OF p]
  have "requests k' = requests k3 @
          (if newStatus v \<noteq> status then [PatchStatus (Json (newStatus v))] else [])"
    by auto
  with r3 have "issued k k' =
      map (\<lambda>j. CreatePod (podName st j)) [0..replicas v - 1] @ [ListPods (Name st)] @
      concat (map (podRequests (replicas v)) (pods v)) @
      (if newStatus v \<noteq> status then [PatchStatus (Json (newStatus v))] else [])"
    by (simp add: issued_def)
  with g' s show ?thesis by blast
qed

lemma reconcileRun_pods_distinct:
  assumes "reconcileRun h e k = (err, Some v, k')"
    and "distinct (map PodName (podObjects k))"
  shows "distinct (map PodName (pods v))"
proof -
  from reconcileRun_locals [OF assms(1)] obtain st k1 k2 where
    c: "createPods e st 0 (replicas v) k = (None, k1)" and
    li: "kubeList e (Name st) k1 = (Inr (pods v), k2)"
    by blast
  from createPods_distinct [OF c assms(2)] kubeList_pods [OF li] show ?thesis
    by (simp add: distinct_map_filter)
qed

lemma count_list_replicate:
  "count_list (replicate n x) y = (if x = y then n else 0)"
  by (induction n) auto

lemma count_list_map_CreatePod: "count_list (map (\<lambda>j. CreatePod (f j)) js) (ExecKill n) = 0"
  by (induction js) auto

lemma count_podRequests_other:
  "PodName q \<noteq> n \<Longrightarrow> count_list (podRequests r q) (ExecKill n) = 0"
  by (simp add: podRequests_def count_list_replicate)

lemma count_podRequests:
  "count_list (podRequests r p) (ExecKill (PodName p)) =
     (if inRange r p then length (mainTerminated (ContainerStatuses p)) else 0)"
  by (simp add: podRequests_def count_list_replicate)

lemma count_exec_pods:
  "distinct (map PodName ps) \<Longrightarrow> p \<in> set ps \<Longrightarrow>
   count_list (concat (map (podRequests r) ps)) (ExecKill (PodName p)) =
     (if inRange r p then length (mainTerminated (ContainerStatuses p)) else 0)"
proof (induction ps)
  case Nil
  then show ?case by simp
next
  case (Cons q ps)
  show ?case
  proof (cases "p = q")
    case True
    from Cons.prems have nq: "PodName q \<notin> PodName ` set ps" by simp
    have "\<forall>x \<in> set ps. PodName x \<noteq> PodName p"
    proof
      fix x
      assume "x \<in> set ps"
      then have "PodName x \<in> PodName ` set ps" by simp
      with nq True show "PodName x \<noteq> PodName p" by auto
    qed
    then have "count_list (concat (map (podRequests r) ps)) (ExecKill (PodName p)) = 0"
      by (induction ps) (simp_all add: count_podRequests_other)
    with True show ?thesis by (simp add: count_podRequests)
  next
    case False
    with Cons.prems have "p \<in> set ps" "PodName q \<noteq> PodName p" by auto
    with Cons.IH Cons.prems show ?thesis by (simp add: count_podRequests_other)
  qed
qed

lemma reconcileRun_exec_count:
  assumes run: "reconcileRun h e k = (err, Some v, k')"
    and d: "distinct (map PodName (podObjects k))"
    and p: "p \<in> set (pods v)"
  shows "count_list (issued k k') (ExecKill (PodName p)) =
           (if inRange (replicas v) p then length (mainTerminated (ContainerStatuses p)) else 0)"
proof -
  from reconcileRun_issued [OF run] obtain st status where
    "issued k k' =
       map (\<lambda>j. CreatePod (podName st j)) [0..replicas v - 1] @ [ListPods (Name st)] @
       concat (map (podRequests (replicas v)) (pods v)) @
       (if newStatus v \<noteq> status then [PatchStatus (Json (newStatus v))] else [])"
    by blast
  then show ?thesis
    using count_exec_pods [OF reconcileRun_pods_distinct [OF run d] p, of "replicas v"]
    by (simp add: count_list_map_CreatePod)
qed

text \<open>A run that returns no error and has not reached line 195 found no step to work on.\<close>

lemma reconcileRun_quiet:
  assumes "reconcileRun h e k = (None, None, k')"
  shows "kubeGet e k = Inl NotFound \<or>
         (\<exists>st. kubeGet e k = Inr st \<and> DeletionTimestamp st \<noteq> None)"
  using assms
  by (auto simp: reconcileRun_def Let_def IgnoreNotFound_def
      split: sum.splits option.splits prod.splits if_splits)

lemma killSidecar_error:
  "killSidecar e p css k = (Some er, k') \<Longrightarrow>
   (\<exists>x. er = FailedToExec x \<and> executorErr e (PodName p) = Some x) \<or>
   (\<exists>x. er = FailedToStream x \<and> streamErr e (PodName p) = Some x \<and> x \<noteq> ContainerNotFound)"
  by (induction css arbitrary: k)
    (auto simp: Let_def IgnoreContainerNotFound_def split: if_splits option.splits)

lemma inspectPods_error:
  "inspectPods h e r ps ns k = (Some er, ns', k') \<Longrightarrow>
   (\<exists>x. er = ApiError x) \<or>
   (\<exists>x n. er = FailedToExec x \<and> executorErr e n = Some x) \<or>
   (\<exists>x n. er = FailedToStream x \<and> streamErr e n = Some x \<and> x \<noteq> ContainerNotFound)"
proof (induction ps arbitrary: ns k)
  case Nil
  then show ?case by simp
next
  case (Cons p ps)
  show ?case
  proof (cases "fst (Atoi (ReplicaAnnotation p)) \<ge> r")
    case True
    obtain e1 k1 where d: "kubeDelete e p k = (e1, k1)" by (cases "kubeDelete e p k")
    with True Cons.prems Cons.IH [of ns k1] show ?thesis
      by (auto split: option.splits)
  next
    case False
    obtain e1 k1 where d: "killSidecar e p (ContainerStatuses p) k = (e1, k1)"
      by (cases "killSidecar e p (ContainerStatuses p) k")
    show ?thesis
    proof (cases e1)
      case None
      with d False Cons.prems Cons.IH [of "inspectStatus h ns p" k1] show ?thesis
        by (auto simp: Let_def)
    next
      case (Some x)
      with d False Cons.prems have "er = x" by (auto simp: Let_def)
      with Some d killSidecar_error [of e p "ContainerStatuses p" k er k1] show ?thesis
        by blast
    qed
  qed
qed

lemma reconcileRun_exec_error:
  assumes "reconcileRun h e k = (Some er, l, k')"
  shows "(\<forall>x. er = FailedToExec x \<longrightarrow> (\<exists>n. executorErr e n = Some x)) \<and>
         (\<forall>x. er = FailedToStream x \<longrightarrow> x \<noteq> ContainerNotFound \<and> (\<exists>n. streamErr e n = Some x))"
proof (cases l)
  case (Some v)
  with assms reconcileRun_error [of h e k "Some er" v k'] have "\<exists>z. er = FailedToPatch z"
    by (auto simp: map_option_case split: if_splits option.splits)
  then show ?thesis by auto
next
  case None
  have i: "\<And>r ps ns k2 x ns' k3. inspectPods h e r ps ns k2 = (Some x, ns', k3) \<Longrightarrow>
     (\<exists>y. x = ApiError y) \<or>
     (\<exists>y n. x = FailedToExec y \<and> executorErr e n = Some y) \<or>
     (\<exists>y n. x = FailedToStream y \<and> streamErr e n = Some y \<and> y \<noteq> ContainerNotFound)"
    by (rule inspectPods_error)
  from assms None show ?thesis
    apply (simp add: reconcileRun_def Let_def
        split: sum.splits option.splits prod.splits if_splits)
    using i apply (auto dest!: i)
    done
qed


lemma exWorkSwallow:
  "reconcileRun exHelpers (exEnv\<lparr>streamErr := \<lambda>n. Some ContainerNotFound\<rparr>) exWorkKube =
     (None, Some exWorkLocals, exWorkKube1)"
  by code_simp

lemma exWorkStreamFails:
  "fst (reconcileRun exHelpers (exEnv\<lparr>streamErr := \<lambda>n. Some (OtherError ''broken pipe'')\<rparr>)
          exWorkKube) =
     Some (FailedToStream (OtherError ''broken pipe''))"
  by code_simp

text \<open>
  C6, as the code has it. In a run that completes the loop over the pods, on a cluster
  whose pods have distinct names, the requests to kill the sidecar of a listed pod within
  the range are as many as the container statuses of the pod that name a terminated main
  container (one, for a pod whose main container has terminated), whatever the state of
  the sidecar; none is made for a listed pod out of the range. Such a run has met no
  failure of the executor and no failure of the stream other than a container not found;
  and a run that returns no error without completing the loop found no step to work on, so
  that any other failure is returned. A failure of the stream that is returned is not a
  container not found.
\<close>

theorem C6_remote_termination:
  assumes "reconcileRun h e k = (err, l, k')"
    and "distinct (map PodName (podObjects k))"
  shows "(\<forall>v. l = Some v \<longrightarrow>
            (\<forall>p \<in> set (pods v).
               count_list (issued k k') (ExecKill (PodName p)) =
                 (if inRange (replicas v) p
                  then length (mainTerminated (ContainerStatuses p)) else 0)) \<and>
            (\<forall>p \<in> set (pods v).
               inRange (replicas v) p \<and> mainTerminated (ContainerStatuses p) \<noteq> [] \<longrightarrow>
               executorErr e (PodName p) = None \<and>
               (streamErr e (PodName p) = None \<or>
                streamErr e (PodName p) = Some ContainerNotFound))) \<and>
         (l = None \<and> err = None \<longrightarrow>
            kubeGet e k = Inl NotFound \<or>
            (\<exists>st. kubeGet e k = Inr st \<and> DeletionTimestamp st \<noteq> None)) \<and>
         (\<forall>x. err = Some (FailedToExec x) \<longrightarrow> (\<exists>n. executorErr e n = Some x)) \<and>
         (\<forall>x. err = Some (FailedToStream x) \<longrightarrow>
            x \<noteq> ContainerNotFound \<and> (\<exists>n. streamErr e n = Some x))"
proof -
  have a: "count_list (issued k k') (ExecKill (PodName p)) =
             (if inRange (replicas v) p
              then length (mainTerminated (ContainerStatuses p)) else 0)"
    if "l = Some v" "p \<in> set (pods v)" for v p
    using reconcileRun_exec_count [of h e k err v k' p] assms that by simp
  have b: "executorErr e (PodName p) = None \<and>
           (streamErr e (PodName p) = None \<or> streamErr e (PodName p) = Some ContainerNotFound)"
    if "l = Some v" "p \<in> set (pods v)" "inRange (replicas v) p"
       "mainTerminated (ContainerStatuses p) \<noteq> []" for v p
  proof -
    from assms that have "reconcileRun h e k = (err, Some v, k')" by simp
    from reconcileRun_locals [OF this] obtain k2 k3 where
      "inspectPods h e (replicas v) (pods v)
         (initialStatus h e (lastReplicas v) (replicas v)) k2 = (None, newStatus v, k3)"
      by blast
    from inspectPods_ok_errors [OF this that(2,3,4)] show ?thesis
      by (auto simp: IgnoreContainerNotFound_def split: if_splits)
  qed
  have c: "kubeGet e k = Inl NotFound \<or>
           (\<exists>st. kubeGet e k = Inr st \<and> DeletionTimestamp st \<noteq> None)"
    if "l = None \<and> err = None"
    using reconcileRun_quiet [of h e k k'] assms that by simp
  have d: "(\<forall>x. err = Some (FailedToExec x) \<longrightarrow> (\<exists>n. executorErr e n = Some x)) \<and>
           (\<forall>x. err = Some (FailedToStream x) \<longrightarrow>
              x \<noteq> ContainerNotFound \<and> (\<exists>n. streamErr e n = Some x))"
  proof (cases err)
    case None
    then show ?thesis by simp
  next
    case (Some er)
    with assms reconcileRun_exec_error [of h e k er l k'] show ?thesis by simp
  qed
  from a b c d show ?thesis by blast
qed

theorem C6_remote_termination_witness:
  "count_list (issued exWorkKube exWorkKube1) (ExecKill ''w-1'') = 1 \<and>
   count_list (issued exWorkKube exWorkKube1) (ExecKill ''w-0'') = 0 \<and>
   mainTerminated (ContainerStatuses exWork1) =
     [\<lparr>ContainerName = ''main'', Terminated = True, Running = False\<rparr>] \<and>
   fst (reconcileRun exHelpers (exEnv\<lparr>streamErr := \<lambda>n. Some ContainerNotFound\<rparr>) exWorkKube) =
     None \<and>
   fst (reconcileRun exHelpers (exEnv\<lparr>streamErr := \<lambda>n. Some (OtherError ''broken pipe'')\<rparr>)
          exWorkKube) =
     Some (FailedToStream (OtherError ''broken pipe''))"
proof -
  have d: "distinct (map PodName (podObjects exWorkKube))"
    by (simp add: exWorkKube_def exWork0_def exWork1_def exWork7_def)
  have p: "pods exWorkLocals = [exWork0, exWork1, exWork7]" "replicas exWorkLocals = 2"
    by (simp_all add: exWorkLocals_def)
  have r: "inRange 2 exWork0" "inRange 2 exWork1"
    by code_simp+
  have m: "mainTerminated (ContainerStatuses exWork0) = []"
    "mainTerminated (ContainerStatuses exWork1) =
       [\<lparr>ContainerName = ''main'', Terminated = True, Running = False\<rparr>]"
    by (simp_all add: mainTerminated_def exWork0_def exWork1_def)
  have n: "PodName exWork0 = ''w-0''" "PodName exWork1 = ''w-1''"
    by (simp_all add: exWork0_def exWork1_def)
  from C6_remote_termination [OF exWorkRun d] p r m n exWorkSwallow exWorkStreamFails
  show ?thesis by simp
qed

text \<open>
  C6 as stated fails for a pod out of the range: in the run of the example the main
  container of the pod of replica 7 has terminated and its sidecar is running, and no
  request to kill its sidecar is made; the pod is deleted.
\<close>

theorem C6_out_of_range_counterexample:
  "reconcileRun exHelpers exEnv exWorkKube = (None, Some exWorkLocals, exWorkKube1) \<and>
   podObjects exWorkKube = [exWork0, exWork1, exWork7] \<and>
   ContainerStatuses exWork7 =
     [\<lparr>ContainerName = ''sidecar'', Terminated = False, Running = True\<rparr>,
      \<lparr>ContainerName = ''main'', Terminated = True, Running = False\<rparr>] \<and>
   count_list (issued exWorkKube exWorkKube1) (ExecKill (PodName exWork7)) = 0 \<and>
   count_list (issued exWorkKube exWorkKube1) (DeletePod (PodName exWork7)) = 1"
proof -
  have "count_list (issued exWorkKube exWorkKube1) (ExecKill (PodName exWork7)) = 0"
       "count_list (issued exWorkKube exWorkKube1) (DeletePod (PodName exWork7)) = 1"
    by (simp_all add: issued_def exWorkKube_def exWorkKube1_def exWork7_def)
  moreover have "ContainerStatuses exWork7 =
     [\<lparr>ContainerName = ''sidecar'', Terminated = False, Running = True\<rparr>,
      \<lparr>ContainerName = ''main'', Terminated = True, Running = False\<rparr>]"
    by (simp add: exWork7_def)
  moreover have "podObjects exWorkKube = [exWork0, exWork1, exWork7]"
    by (simp add: exWorkKube_def)
  ultimately show ?thesis using exWorkRun by simp
qed

section \<open>Decimal conversions\<close>

lemma digit_val_digit_char: "d < 10 \<Longrightarrow> digit_val (digit_char d) = Some d"
  by (simp add: digit_val_def digit_char_def Let_def)

lemma parse_digits_snoc:
  "parse_digits acc (xs @ [c]) =
     (case parse_digits acc xs of
        None \<Rightarrow> None
      | Some a \<Rightarrow> (case digit_val c of None \<Rightarrow> None | Some d \<Rightarrow> Some (a * 10 + d)))"
  by (induction xs arbitrary: acc) (auto split: option.splits)

lemma parse_digits_digits10: "parse_digits 0 (digits10 n) = Some n"
proof (induction n rule: digits10.induct)
  case (1 n)
  show ?case
  proof (cases "n < 10")
    case True
    then show ?thesis by (subst digits10.simps) (simp add: digit_val_digit_char)
  next
    case False
    with 1 have "parse_digits 0 (digits10 (n div 10)) = Some (n div 10)" by simp
    with False show ?thesis
      by (subst digits10.simps) (simp add: parse_digits_snoc digit_val_digit_char)
  qed
qed

lemma digits10_nonempty: "digits10 n \<noteq> []"
  by (subst digits10.simps) simp

lemma digits10_hd: "digits10 n = c # cs \<Longrightarrow> digit_val c \<noteq> None"
  using parse_digits_digits10 [of n] by (auto split: option.splits)

lemma sign_not_digit: "digit_val (CHR ''-'') = None" "digit_val (CHR ''+'') = None"
  by (simp_all add: digit_val_def)

lemma Atoi_Itoa:
  assumes "0 \<le> i" "i < 2 ^ 63"
  shows "Atoi (Itoa i) = (i, True)"
proof -
  obtain c cs where d: "digits10 (nat i) = c # cs"
    using digits10_nonempty [of "nat i"] by (cases "digits10 (nat i)") auto
  from digits10_hd [OF d] have c: "c \<noteq> CHR ''-''" "c \<noteq> CHR ''+''"
    using sign_not_digit by auto
  have p: "parse_digits 0 (c # cs) = Some (nat i)"
    using parse_digits_digits10 [of "nat i"] d by simp
  from assms c p d show ?thesis
    by (simp add: Atoi_def Itoa_def Let_def del: parse_digits.simps)
qed

lemma digits10_inj:
  assumes "digits10 m = digits10 n"
  shows "m = n"
proof -
  have "Some m = parse_digits 0 (digits10 m)" by (simp only: parse_digits_digits10)
  also have "\<dots> = parse_digits 0 (digits10 n)" by (simp only: assms)
  also have "\<dots> = Some n" by (simp only: parse_digits_digits10)
  finally show ?thesis by simp
qed

lemma Itoa_inj:
  assumes e: "Itoa i = Itoa j"
  shows "i = j"
proof -
  have neg: "\<And>m n. CHR ''-'' # digits10 m \<noteq> digits10 n"
    using digits10_hd sign_not_digit by metis
  show ?thesis
  proof (cases "i < 0")
    case True
    show ?thesis
    proof (cases "j < 0")
      case True
      with \<open>i < 0\<close> e have "nat (- i) = nat (- j)" by (auto simp: Itoa_def dest: digits10_inj)
      with True \<open>i < 0\<close> show ?thesis by simp
    next
      case False
      with \<open>i < 0\<close> e neg show ?thesis by (auto simp: Itoa_def)
    qed
  next
    case False
    show ?thesis
    proof (cases "j < 0")
      case True
      with False e neg [of "nat (- j)" "nat i"] show ?thesis by (auto simp: Itoa_def)
    next
      case F2: False
      with False e have "nat i = nat j" by (auto simp: Itoa_def dest: digits10_inj)
      with False F2 show ?thesis by simp
    qed
  qed
qed

lemma podName_inj: "podName st i = podName st j \<Longrightarrow> i = j"
  by (simp add: podName_def Itoa_inj)

section \<open>The pods that a run creates and deletes\<close>

lemma kubeCreate_pods:
  "kubeCreate e p k = (err, k') \<Longrightarrow> createErr e (PodName p) = None \<Longrightarrow>
   IgnoreAlreadyExists err = None \<and>
   podObjects k' =
     (if PodName p \<in> PodName ` set (podObjects k) then podObjects k else podObjects k @ [p])"
  by (auto simp: kubeCreate_def Let_def IgnoreAlreadyExists_def split: option.splits if_splits)

lemma kubeCreate_keeps:
  "kubeCreate e p k = (err, k') \<Longrightarrow> set (podObjects k) \<subseteq> set (podObjects k')"
  by (auto simp: kubeCreate_def Let_def split: option.splits if_splits)

lemma createPods_keeps:
  "createPods e st i r k = (err, k') \<Longrightarrow> set (podObjects k) \<subseteq> set (podObjects k')"
proof (induction e st i r k rule: createPods.induct)
  case (1 e st i r k)
  show ?case
  proof (cases "i < r")
    case False
    with "1.prems" show ?thesis by (simp add: createPods_ge)
  next
    case True
    obtain err1 k1 where c: "kubeCreate e (newPod st i) k = (err1, k1)"
      by (cases "kubeCreate e (newPod st i) k")
    show ?thesis
    proof (cases "IgnoreAlreadyExists err1 \<noteq> None")
      case True
      with \<open>i < r\<close> c "1.prems" have "k' = k1" by (simp add: createPods_lt)
      with kubeCreate_keeps [OF c] show ?thesis by simp
    next
      case False
      with \<open>i < r\<close> c "1.prems" have "createPods e st (i + 1) r k1 = (err, k')"
        by (simp add: createPods_lt)
      with "1.IH" [OF \<open>i < r\<close> c [symmetric]] False kubeCreate_keeps [OF c]
      show ?thesis by auto
    qed
  qed
qed

text \<open>Without failures the loop adds the pods whose names are missing, and no other.\<close>

lemma PodName_newPod [simp]: "PodName (newPod st j) = podName st j"
  by (simp add: newPod_def)

lemma atLeastLessThan_int_rec: "i < r \<Longrightarrow> {i..<r} = insert i {i + 1..<(r::int)}"
  by auto

lemma createPods_pods:
  "createPods e st i r k = (err, k') \<Longrightarrow> \<forall>n. createErr e n = None \<Longrightarrow>
     err = None \<and>
     PodName ` set (podObjects k') = PodName ` set (podObjects k) \<union> podName st ` {i..<r} \<and>
     (\<forall>p \<in> set (podObjects k'). p \<in> set (podObjects k) \<or> (\<exists>j. i \<le> j \<and> j < r \<and> p = newPod st j)) \<and>
     ((\<forall>j. i \<le> j \<and> j < r \<longrightarrow> podName st j \<in> PodName ` set (podObjects k)) \<longrightarrow>
        podObjects k' = podObjects k)"
proof (induction e st i r k rule: createPods.induct)
  case (1 e st i r k)
  show ?case
  proof (cases "i < r")
    case False
    with "1.prems" show ?thesis by (auto simp: createPods_ge)
  next
    case True
    obtain err1 k1 where c: "kubeCreate e (newPod st i) k = (err1, k1)"
      by (cases "kubeCreate e (newPod st i) k")
    from "1.prems" have ce: "createErr e (PodName (newPod st i)) = None" by simp
    from kubeCreate_pods [OF c ce] have
      ig: "IgnoreAlreadyExists err1 = None" and
      p1: "podObjects k1 =
             (if podName st i \<in> PodName ` set (podObjects k) then podObjects k
              else podObjects k @ [newPod st i])"
      by simp_all
    from True c ig "1.prems" have rec: "createPods e st (i + 1) r k1 = (err, k')"
      by (simp add: createPods_lt)
    from ig have nig: "\<not> IgnoreAlreadyExists err1 \<noteq> None" by simp
    from "1.IH" [OF True c [symmetric] nig rec] "1.prems" have
      ih1: "err = None" and
      ih2: "PodName ` set (podObjects k') =
              PodName ` set (podObjects k1) \<union> podName st ` {i + 1..<r}" and
      ih3: "\<forall>p \<in> set (podObjects k').
              p \<in> set (podObjects k1) \<or> (\<exists>j. i + 1 \<le> j \<and> j < r \<and> p = newPod st j)" and
      ih4: "(\<forall>j. i + 1 \<le> j \<and> j < r \<longrightarrow> podName st j \<in> PodName ` set (podObjects k1)) \<longrightarrow>
              podObjects k' = podObjects k1"
      by simp_all
    from p1 have n1: "PodName ` set (podObjects k1) =
        insert (podName st i) (PodName ` set (podObjects k))"
      by auto
    have g2: "PodName ` set (podObjects k') =
        PodName ` set (podObjects k) \<union> podName st ` {i..<r}"
      using ih2 n1 atLeastLessThan_int_rec [OF True] by auto
    have g3: "\<forall>p \<in> set (podObjects k').
        p \<in> set (podObjects k) \<or> (\<exists>j. i \<le> j \<and> j < r \<and> p = newPod st j)"
    proof
      fix p
      assume "p \<in> set (podObjects k')"
      with ih3 have "p \<in> set (podObjects k1) \<or> (\<exists>j. i + 1 \<le> j \<and> j < r \<and> p = newPod st j)"
        by simp
      then show "p \<in> set (podObjects k) \<or> (\<exists>j. i \<le> j \<and> j < r \<and> p = newPod st j)"
      proof
        assume "p \<in> set (podObjects k1)"
        with p1 have "p \<in> set (podObjects k) \<or> p = newPod st i"
          by (auto split: if_splits)
        with True show ?thesis by auto
      next
        assume "\<exists>j. i + 1 \<le> j \<and> j < r \<and> p = newPod st j"
        then obtain j where "i + 1 \<le> j" "j < r" "p = newPod st j" by blast
        then have "i \<le> j \<and> j < r \<and> p = newPod st j" by simp
        then show ?thesis by blast
      qed
    qed
    have g4: "podObjects k' = podObjects k"
      if a: "\<forall>j. i \<le> j \<and> j < r \<longrightarrow> podName st j \<in> PodName ` set (podObjects k)"
    proof -
      from a True have "podName st i \<in> PodName ` set (podObjects k)" by simp
      with p1 have e1: "podObjects k1 = podObjects k" by simp
      with a have "\<forall>j. i + 1 \<le> j \<and> j < r \<longrightarrow> podName st j \<in> PodName ` set (podObjects k1)"
        by simp
      with ih4 e1 show ?thesis by simp
    qed
    from ih1 g2 g3 g4 show ?thesis by blast
  qed
qed

section \<open>Deletions\<close>

lemma kubeDelete_pods:
  "kubeDelete e p k = (err, k') \<Longrightarrow> deleteErr e (PodName p) = None \<Longrightarrow>
   IgnoreNotFound err = None \<and>
   podObjects k' = filter (\<lambda>q. PodName q \<noteq> PodName p) (podObjects k)"
proof -
  assume a: "kubeDelete e p k = (err, k')" "deleteErr e (PodName p) = None"
  show ?thesis
  proof (cases "PodName p \<in> PodName ` set (podObjects k)")
    case True
    with a show ?thesis by (auto simp: kubeDelete_def Let_def IgnoreNotFound_def)
  next
    case False
    then have "\<forall>q \<in> set (podObjects k). PodName q \<noteq> PodName p"
      by (metis imageI)
    then have "filter (\<lambda>q. PodName q \<noteq> PodName p) (podObjects k) = podObjects k"
      by (simp add: filter_id_conv)
    with False a show ?thesis by (auto simp: kubeDelete_def Let_def IgnoreNotFound_def)
  qed
qed

lemma kubeDelete_gone:
  "kubeDelete e p k = (err, k') \<Longrightarrow>
   set (podObjects k') \<subseteq> set (podObjects k) \<and>
   (\<forall>q \<in> set (podObjects k). q \<notin> set (podObjects k') \<longrightarrow> PodName q = PodName p)"
  by (auto simp: kubeDelete_def Let_def split: option.splits if_splits)

lemma inspectPods_gone:
  "inspectPods h e r ps ns k = (er, ns', k') \<Longrightarrow>
   set (podObjects k') \<subseteq> set (podObjects k) \<and>
   (\<forall>q \<in> set (podObjects k). q \<notin> set (podObjects k') \<longrightarrow>
      (\<exists>p \<in> set ps. \<not> inRange r p \<and> PodName p = PodName q))"
proof (induction ps arbitrary: ns k)
  case Nil
  then show ?case by simp
next
  case (Cons p ps)
  show ?case
  proof (cases "inRange r p")
    case False
    obtain e1 k1 where d: "kubeDelete e p k = (e1, k1)" by (cases "kubeDelete e p k")
    note g = kubeDelete_gone [OF d]
    show ?thesis
    proof (cases "IgnoreNotFound e1")
      case (Some x)
      with False d Cons.prems have "k' = k1" by (auto simp: inRange_def)
      with g False show ?thesis by auto
    next
      case None
      with False d Cons.prems have "inspectPods h e r ps ns k1 = (er, ns', k')"
        by (auto simp: inRange_def)
      from Cons.IH [OF this] g False show ?thesis by (auto; metis)
    qed
  next
    case True
    obtain e1 k1 where d: "killSidecar e p (ContainerStatuses p) k = (e1, k1)"
      by (cases "killSidecar e p (ContainerStatuses p) k")
    note g = killSidecar_podObjects [OF d]
    show ?thesis
    proof (cases e1)
      case (Some x)
      with True d Cons.prems have "k' = k1" by (auto simp: inRange_def Let_def)
      with g show ?thesis by simp
    next
      case None
      with True d Cons.prems
      have "inspectPods h e r ps (inspectStatus h ns p) k1 = (er, ns', k')"
        by (auto simp: inRange_def Let_def)
      from Cons.IH [OF this] g show ?thesis by auto
    qed
  qed
qed

lemma inspectPods_pods:
  "inspectPods h e r ps ns k = (None, ns', k') \<Longrightarrow> \<forall>n. deleteErr e n = None \<Longrightarrow>
   podObjects k' =
     filter (\<lambda>q. PodName q \<notin> PodName ` {p \<in> set ps. \<not> inRange r p}) (podObjects k)"
proof (induction ps arbitrary: ns k)
  case Nil
  then show ?case by simp
next
  case (Cons p ps)
  show ?case
  proof (cases "inRange r p")
    case False
    obtain e1 k1 where d: "kubeDelete e p k = (e1, k1)" by (cases "kubeDelete e p k")
    from kubeDelete_pods [OF d] Cons.prems have
      i: "IgnoreNotFound e1 = None" and
      p1: "podObjects k1 = filter (\<lambda>q. PodName q \<noteq> PodName p) (podObjects k)"
      by simp_all
    from False d i Cons.prems have "inspectPods h e r ps ns k1 = (None, ns', k')"
      by (auto simp: inRange_def)
    from Cons.IH [OF this] Cons.prems p1 False show ?thesis
      by (auto intro!: filter_cong)
  next
    case True
    obtain e1 k1 where d: "killSidecar e p (ContainerStatuses p) k = (e1, k1)"
      by (cases "killSidecar e p (ContainerStatuses p) k")
    with True Cons.prems
    have "inspectPods h e r ps (inspectStatus h ns p) k1 = (None, ns', k')"
      by (auto simp: inRange_def Let_def split: option.splits)
    from Cons.IH [OF this] Cons.prems killSidecar_podObjects [OF d] True show ?thesis
      by (auto intro!: filter_cong)
  qed
qed

lemma patchStatus_podObjects:
  "patchStatus e status ns k = (err, k') \<Longrightarrow> podObjects k' = podObjects k"
  by (auto simp: patchStatus_def kubePatchStatus_def Let_def issue_def
      split: if_splits option.splits prod.splits)

text \<open>The ways through a run, as far as the pods are concerned.\<close>

lemma reconcileRun_paths:
  assumes "reconcileRun h e k = (err, l, k')"
  shows "(l = None \<and> podObjects k' = podObjects k) \<or>
         (\<exists>st status cerr k1.
            stepObject k = Some st \<and> Status st = Some status \<and>
            createPods e st 0 (scaledReplicas h e st status) k = (cerr, k1) \<and>
            (l = None \<and> podObjects k' = podObjects k1 \<or>
             (\<exists>ps k2 er ns k3.
                kubeList e (Name st) k1 = (Inr ps, k2) \<and>
                inspectPods h e (scaledReplicas h e st status) ps
                  (initialStatus h e (GetReplicas status) (scaledReplicas h e st status)) k2 =
                  (er, ns, k3) \<and>
                podObjects k' = podObjects k3)))"
proof (cases "kubeGet e k")
  case (Inl x)
  with assms show ?thesis by (simp add: reconcileRun_def)
next
  case (Inr st)
  then have so: "stepObject k = Some st" by (auto simp: kubeGet_def split: option.splits)
  show ?thesis
  proof (cases "DeletionTimestamp st \<noteq> None \<or> Status st = None")
    case True
    then have "l = None \<and> k' = k"
    proof
      assume "DeletionTimestamp st \<noteq> None"
      with assms Inr show ?thesis by (simp add: reconcileRun_def)
    next
      assume "Status st = None"
      with assms Inr show ?thesis by (simp add: reconcileRun_def split: if_splits)
    qed
    then show ?thesis by simp
  next
    case False
    then obtain status where s: "Status st = Some status" and dt: "DeletionTimestamp st = None"
      by auto
    let ?r = "scaledReplicas h e st status"
    obtain cerr k1 where c: "createPods e st 0 ?r k = (cerr, k1)"
      by (cases "createPods e st 0 ?r k")
    show ?thesis
    proof (cases cerr)
      case (Some x)
      with assms Inr s dt c have "l = None \<and> k' = k1"
        by (simp add: reconcileRun_def Let_def)
      with so s c show ?thesis by blast
    next
      case None
      obtain res k2 where li: "kubeList e (Name st) k1 = (res, k2)"
        by (cases "kubeList e (Name st) k1")
      show ?thesis
      proof (cases res)
        case (Inl x)
        with assms Inr s dt c None li have "l = None \<and> k' = k2"
          by (simp add: reconcileRun_def Let_def)
        with kubeList_podObjects [OF li] so s c show ?thesis by auto
      next
        case (Inr ps)
        obtain er ns k3 where
          i: "inspectPods h e ?r ps (initialStatus h e (GetReplicas status) ?r) k2 = (er, ns, k3)"
          by (cases "inspectPods h e ?r ps (initialStatus h e (GetReplicas status) ?r) k2")
        have "podObjects k' = podObjects k3"
        proof (cases er)
          case (Some x)
          with assms \<open>kubeGet e k = Inr st\<close> s dt c None li Inr i show ?thesis
            by (simp add: reconcileRun_def Let_def)
        next
          case N: None
          obtain perr k4 where p: "patchStatus e status ns k3 = (perr, k4)"
            by (cases "patchStatus e status ns k3")
          with assms \<open>kubeGet e k = Inr st\<close> s dt c None li Inr i N have "k' = k4"
            by (simp add: reconcileRun_def Let_def)
          with patchStatus_podObjects [OF p] show ?thesis by simp
        qed
        with so s c li Inr i show ?thesis by blast
      qed
    qed
  qed
qed

lemma distinct_PodName_eq:
  "distinct (map PodName ps) \<Longrightarrow> p \<in> set ps \<Longrightarrow> q \<in> set ps \<Longrightarrow>
   PodName p = PodName q \<Longrightarrow> p = q"
  by (meson distinct_map inj_onD)

lemma reconcileRun_gone:
  assumes run: "reconcileRun h e k = (err, l, k')"
    and d: "distinct (map PodName (podObjects k))"
    and q: "q \<in> set (podObjects k)" "q \<notin> set (podObjects k')"
  shows "\<exists>st status. stepObject k = Some st \<and> Status st = Some status \<and>
           StepNameLabel q = Name st \<and> \<not> inRange (scaledReplicas h e st status) q"
proof -
  from reconcileRun_paths [OF run] q obtain st status cerr k1 where
    so: "stepObject k = Some st" "Status st = Some status" and
    c: "createPods e st 0 (scaledReplicas h e st status) k = (cerr, k1)" and
    rest: "(l = None \<and> podObjects k' = podObjects k1) \<or>
       (\<exists>ps k2 er ns k3.
          kubeList e (Name st) k1 = (Inr ps, k2) \<and>
          inspectPods h e (scaledReplicas h e st status) ps
            (initialStatus h e (GetReplicas status) (scaledReplicas h e st status)) k2 =
            (er, ns, k3) \<and>
          podObjects k' = podObjects k3)"
    by auto
  from createPods_keeps [OF c] q have q1: "q \<in> set (podObjects k1)" by auto
  from createPods_distinct [OF c d] have d1: "distinct (map PodName (podObjects k1))" .
  from rest q q1 obtain ps k2 er ns k3 where
    li: "kubeList e (Name st) k1 = (Inr ps, k2)" and
    i: "inspectPods h e (scaledReplicas h e st status) ps
          (initialStatus h e (GetReplicas status) (scaledReplicas h e st status)) k2 =
          (er, ns, k3)" and
    k3: "podObjects k' = podObjects k3"
    by auto
  from kubeList_podObjects [OF li] q1 have q2: "q \<in> set (podObjects k2)" by simp
  from inspectPods_gone [OF i] q2 q k3 obtain p where
    p: "p \<in> set ps" "\<not> inRange (scaledReplicas h e st status) p" "PodName p = PodName q"
    by auto
  from kubeList_pods [OF li] p have "p \<in> set (podObjects k1)" "StepNameLabel p = Name st"
    by auto
  with distinct_PodName_eq [OF d1 _ q1 p(3)] have "p = q" by simp
  with p \<open>StepNameLabel p = Name st\<close> so show ?thesis by auto
qed

lemma filter_isCreate_podRequests: "filter isCreate (concat (map (podRequests r) ps)) = []"
  by (induction ps) (auto simp: podRequests_def isCreate_def)

lemma filter_isDelete_podRequests:
  "filter isDelete (concat (map (podRequests r) ps)) =
     map (\<lambda>p. DeletePod (PodName p)) (filter (\<lambda>p. \<not> inRange r p) ps)"
  by (induction ps) (auto simp: podRequests_def isDelete_def)

lemma reconcileRun_creates_deletes:
  assumes "reconcileRun h e k = (err, Some v, k')"
  shows "\<exists>st. stepObject k = Some st \<and>
           filter isCreate (issued k k') =
             map (\<lambda>j. CreatePod (podName st j)) [0..replicas v - 1] \<and>
           filter isDelete (issued k k') =
             map (\<lambda>p. DeletePod (PodName p))
               (filter (\<lambda>p. \<not> inRange (replicas v) p) (pods v))"
proof -
  from reconcileRun_issued [OF assms] obtain st status where
    so: "stepObject k = Some st" and
    i: "issued k k' =
       map (\<lambda>j. CreatePod (podName st j)) [0..replicas v - 1] @ [ListPods (Name st)] @
       concat (map (podRequests (replicas v)) (pods v)) @
       (if newStatus v \<noteq> status then [PatchStatus (Json (newStatus v))] else [])"
    by blast
  have c: "filter isCreate (map (\<lambda>j. CreatePod (podName st j)) js) =
           map (\<lambda>j. CreatePod (podName st j)) js" for js
    by (induction js) (simp_all add: isCreate_def)
  have dl: "filter isDelete (map (\<lambda>j. CreatePod (podName st j)) js) = []" for js
    by (induction js) (simp_all add: isDelete_def)
  from i so show ?thesis
    by (simp add: c dl filter_isCreate_podRequests filter_isDelete_podRequests
        isCreate_def isDelete_def)
qed

section \<open>Convergence of the pods\<close>

lemma podName_cong: "Name st2 = Name st \<Longrightarrow> podName st2 = podName st"
  by (rule ext) (simp add: podName_def)

lemma stepPods_cong: "Name st2 = Name st \<Longrightarrow> stepPods st2 k = stepPods st k"
  by (simp add: stepPods_def)

lemma managed_cong: "Name st2 = Name st \<Longrightarrow> managed st2 k = managed st k"
  using podName_cong [of st2 st] by (simp add: managed_def)

lemma managed_newPod:
  assumes "0 \<le> j" "j < 2 ^ 63"
  shows "StepNameLabel (newPod st j) = Name st \<and>
         0 \<le> fst (Atoi (ReplicaAnnotation (newPod st j))) \<and>
         ReplicaAnnotation (newPod st j) = Itoa (fst (Atoi (ReplicaAnnotation (newPod st j)))) \<and>
         PodName (newPod st j) = podName st (fst (Atoi (ReplicaAnnotation (newPod st j))))"
  using Atoi_Itoa [OF assms] assms by (simp add: newPod_def)

lemma managed_createPods:
  assumes m: "managed st k"
    and c: "createPods e st 0 r k = (err, k1)"
    and nf: "\<forall>n. createErr e n = None"
    and rb: "r < 2 ^ 63"
  shows "managed st k1"
proof -
  from m have d: "distinct (map PodName (podObjects k))" by (simp add: managed_def)
  from createPods_distinct [OF c d] have d1: "distinct (map PodName (podObjects k1))" .
  from createPods_pods [OF c nf] have
    new: "\<forall>p \<in> set (podObjects k1). p \<in> set (podObjects k) \<or> (\<exists>j. 0 \<le> j \<and> j < r \<and> p = newPod st j)"
    by simp
  have "if StepNameLabel p = Name st
        then 0 \<le> fst (Atoi (ReplicaAnnotation p)) \<and>
             ReplicaAnnotation p = Itoa (fst (Atoi (ReplicaAnnotation p))) \<and>
             PodName p = podName st (fst (Atoi (ReplicaAnnotation p)))
        else (\<forall>j. PodName p \<noteq> podName st j)"
    if "p \<in> set (podObjects k1)" for p
  proof -
    from new that consider (old) "p \<in> set (podObjects k)" |
      (new) j where "0 \<le> j" "j < r" "p = newPod st j"
      by blast
    then show ?thesis
    proof cases
      case old
      with m show ?thesis by (simp add: managed_def)
    next
      case new
      with rb have "j < 2 ^ 63" by simp
      from managed_newPod [OF \<open>0 \<le> j\<close> this, of st] new show ?thesis by simp
    qed
  qed
  with d1 show ?thesis by (simp add: managed_def)
qed

lemma managed_filter:
  "managed st k \<Longrightarrow> podObjects k' = filter P (podObjects k) \<Longrightarrow> managed st k'"
  by (simp add: managed_def distinct_map_filter)

lemma card_podNames: "0 \<le> r \<Longrightarrow> card (podName st ` {0..<r}) = nat r"
proof -
  have "inj_on (podName st) {0..<r}" by (rule inj_onI) (rule podName_inj)
  then show ?thesis by (simp add: card_image)
qed

lemma reconcileRun_converges:
  assumes m: "managed st k"
    and so: "stepObject k = Some st"
    and run: "reconcileRun h e k = (err, Some v, k')"
    and nc: "\<forall>n. createErr e n = None"
    and nd: "\<forall>n. deleteErr e n = None"
    and rb: "replicas v < 2 ^ 63"
  shows "managed st k' \<and>
         PodName ` set (stepPods st k') = podName st ` {0..<replicas v} \<and>
         distinct (map PodName (stepPods st k')) \<and>
         (\<forall>p \<in> set (stepPods st k'). inRange (replicas v) p) \<and>
         ((\<forall>j. 0 \<le> j \<and> j < replicas v \<longrightarrow> podName st j \<in> PodName ` set (podObjects k)) \<and>
          (\<forall>p \<in> set (stepPods st k). inRange (replicas v) p) \<longrightarrow>
          podObjects k' = podObjects k)"
proof -
  let ?R = "replicas v"
  from reconcileRun_locals [OF run] so obtain status k1 k2 k3 where
    c: "createPods e st 0 ?R k = (None, k1)" and
    li: "kubeList e (Name st) k1 = (Inr (pods v), k2)" and
    i: "inspectPods h e ?R (pods v) (initialStatus h e (lastReplicas v) ?R) k2 =
          (None, newStatus v, k3)" and
    p: "patchStatus e status (newStatus v) k3 = (err, k')"
    by (auto simp: kubeGet_def split: option.splits)
  note cp = createPods_pods [OF c nc]
  have m1: "managed st k1" by (rule managed_createPods [OF m c nc rb])
  then have d1: "distinct (map PodName (podObjects k1))" by (simp add: managed_def)
  have ps: "pods v = stepPods st k1"
    using kubeList_pods [OF li] by (simp add: stepPods_def)
  have k2: "podObjects k2 = podObjects k1" by (rule kubeList_podObjects [OF li])
  have out: "PodName q \<in> PodName ` {p \<in> set (pods v). \<not> inRange ?R p} \<longleftrightarrow>
             StepNameLabel q = Name st \<and> \<not> inRange ?R q"
    if q: "q \<in> set (podObjects k1)" for q
  proof
    assume "PodName q \<in> PodName ` {p \<in> set (pods v). \<not> inRange ?R p}"
    then obtain p where p: "p \<in> set (pods v)" "\<not> inRange ?R p" "PodName p = PodName q"
      by auto
    with ps have "p \<in> set (podObjects k1)" "StepNameLabel p = Name st"
      by (simp_all add: stepPods_def)
    with distinct_PodName_eq [OF d1 _ q p(3)] p show "StepNameLabel q = Name st \<and> \<not> inRange ?R q"
      by auto
  next
    assume "StepNameLabel q = Name st \<and> \<not> inRange ?R q"
    with q ps have "q \<in> {p \<in> set (pods v). \<not> inRange ?R p}" by (simp add: stepPods_def)
    then show "PodName q \<in> PodName ` {p \<in> set (pods v). \<not> inRange ?R p}" by (rule imageI)
  qed
  have k3: "podObjects k3 =
      filter (\<lambda>q. \<not> (StepNameLabel q = Name st \<and> \<not> inRange ?R q)) (podObjects k1)"
    using inspectPods_pods [OF i nd] k2 out by (auto intro!: filter_cong)
  have k': "podObjects k' = podObjects k3" by (rule patchStatus_podObjects [OF p])
  have A: "managed st k'" using managed_filter [OF m1, of k'] k3 k' by simp
  have sp: "stepPods st k' = filter (\<lambda>q. StepNameLabel q = Name st \<and> inRange ?R q) (podObjects k1)"
    by (auto simp: stepPods_def k' k3 intro!: filter_cong)
  have D: "\<forall>p \<in> set (stepPods st k'). inRange ?R p" by (simp add: sp)
  have Dd: "distinct (map PodName (stepPods st k'))"
    using d1 by (simp add: sp distinct_map_filter)
  have B: "PodName ` set (stepPods st k') = podName st ` {0..<?R}"
  proof (intro equalityI subsetI)
    fix n
    assume "n \<in> PodName ` set (stepPods st k')"
    then obtain q where q: "q \<in> set (podObjects k1)" "StepNameLabel q = Name st"
      "inRange ?R q" "n = PodName q"
      by (auto simp: sp)
    with m1 have "0 \<le> fst (Atoi (ReplicaAnnotation q))"
      "PodName q = podName st (fst (Atoi (ReplicaAnnotation q)))"
      by (auto simp: managed_def)
    with q show "n \<in> podName st ` {0..<?R}" by (auto simp: inRange_def)
  next
    fix n
    assume "n \<in> podName st ` {0..<?R}"
    then obtain j where j: "0 \<le> j" "j < ?R" "n = podName st j" by auto
    with cp have "n \<in> PodName ` set (podObjects k1)" by auto
    then obtain q where q: "q \<in> set (podObjects k1)" "PodName q = n" by auto
    have l: "StepNameLabel q = Name st"
    proof (rule ccontr)
      assume "StepNameLabel q \<noteq> Name st"
      with m1 q have "\<forall>j. PodName q \<noteq> podName st j" by (auto simp: managed_def)
      with q j show False by simp
    qed
    with m1 q have "PodName q = podName st (fst (Atoi (ReplicaAnnotation q)))"
      by (auto simp: managed_def)
    with q j have "fst (Atoi (ReplicaAnnotation q)) = j" by (auto dest: podName_inj)
    with j have "inRange ?R q" by (simp add: inRange_def)
    with q l show "n \<in> PodName ` set (stepPods st k')" by (auto simp: sp)
  qed
  have E: "podObjects k' = podObjects k"
    if a: "(\<forall>j. 0 \<le> j \<and> j < ?R \<longrightarrow> podName st j \<in> PodName ` set (podObjects k)) \<and>
           (\<forall>p \<in> set (stepPods st k). inRange ?R p)"
  proof -
    from cp a have e1: "podObjects k1 = podObjects k" by simp
    from a have "\<forall>q \<in> set (podObjects k). \<not> (StepNameLabel q = Name st \<and> \<not> inRange ?R q)"
      by (auto simp: stepPods_def)
    then have "filter (\<lambda>q. \<not> (StepNameLabel q = Name st \<and> \<not> inRange ?R q)) (podObjects k) =
               podObjects k"
      by (simp add: filter_id_conv)
    with k' k3 e1 show ?thesis by simp
  qed
  from A B Dd D E show ?thesis by blast
qed

lemma reconcileRun_stepName:
  assumes "reconcileRun h e k = (err, Some v, k')" and "stepObject k = Some st"
  shows "\<exists>st2. stepObject k' = Some st2 \<and> Name st2 = Name st"
proof -
  from reconcileRun_reached [OF assms(1)] assms(2) obtain status k3 where
    so: "stepObject k3 = Some st" and
    p: "patchStatus e status (newStatus v) k3 = (err, k')"
    by auto
  from patchStatus_cases [OF p] so show ?thesis
    by (auto split: option.splits)
qed

lemma card_podNames_all: "card (podName st ` {0..<r}) = nat r"
proof -
  have "inj_on (podName st) {0..<r}" by (rule inj_onI) (rule podName_inj)
  then show ?thesis by (simp add: card_image)
qed

lemma exWorkRun2:
  "reconcileRun exHelpers exEnv exWorkKube1 = (None, Some exWorkLocals2, exWorkKube2)"
  by code_simp

lemma exWork_managed: "managed exWorkStep exWorkKube"
proof -
  have a: "Atoi ''0'' = (0, True)" "Atoi ''1'' = (1, True)" "Atoi ''7'' = (7, True)"
    by code_simp+
  have i: "Itoa 0 = ''0''" "Itoa 1 = ''1''" "Itoa 7 = ''7''"
    by code_simp+
  show ?thesis
    by (simp add: managed_def exWorkKube_def exWork0_def exWork1_def exWork7_def
        exWorkStep_def podName_def a i)
qed

lemma reconcileRun_step_after:
  assumes "reconcileRun h e k = (err, Some v, k')"
  shows "\<exists>st st2. stepObject k = Some st \<and> stepObject k' = Some st2 \<and>
           Name st2 = Name st \<and> DeletionTimestamp st2 = None \<and> Status st2 \<noteq> None"
proof -
  from reconcileRun_reached [OF assms] obtain st status k3 where
    so: "stepObject k = Some st" "DeletionTimestamp st = None" "Status st = Some status" and
    k3: "stepObject k3 = stepObject k" and
    p: "patchStatus e status (newStatus v) k3 = (err, k')"
    by blast
  from patchStatus_cases [OF p] so k3 show ?thesis
    by (auto split: option.splits)
qed

lemma reconcileRun_second:
  assumes run: "reconcileRun h e k = (err, Some v, k')"
    and so: "stepObject k = Some st"
    and A: "managed st k'"
    and B: "PodName ` set (stepPods st k') = podName st ` {0..<replicas v}"
    and D: "\<forall>p \<in> set (stepPods st k'). inRange (replicas v) p"
    and rb: "replicas v < 2 ^ 63"
    and g2: "getErr e2 = None" and l2: "listErr e2 = None"
    and nc2: "\<forall>n. createErr e2 n = None" and nd2: "\<forall>n. deleteErr e2 n = None"
    and x2: "\<forall>n. executorErr e2 n = None"
    and y2: "\<forall>n. IgnoreContainerNotFound (streamErr e2 n) = None"
    and r2: "stepObject k' = Some st2" "Status st2 = Some status2"
      "scaledReplicas h2 e2 st2 status2 = replicas v"
  shows "(\<exists>v2. fst (snd (reconcileRun h2 e2 k')) = Some v2 \<and> replicas v2 = replicas v) \<and>
         podObjects (snd (snd (reconcileRun h2 e2 k'))) = podObjects k'"
proof -
  from reconcileRun_step_after [OF run] so r2(1) have
    n2: "Name st2 = Name st" and dt: "DeletionTimestamp st2 = None"
    by auto
  from nc2 have c2: "\<forall>n. IgnoreAlreadyExists (createErr e2 n) = None"
    by (simp add: IgnoreAlreadyExists_def)
  from nd2 have d2: "\<forall>n. IgnoreNotFound (deleteErr e2 n) = None"
    by (simp add: IgnoreNotFound_def)
  from reconcileRun_completes [OF g2 r2(1) dt r2(2) l2 c2 d2 x2 y2, of h2] obtain v2 where
    v2: "fst (snd (reconcileRun h2 e2 k')) = Some v2"
    by blast
  define err2 where "err2 = fst (reconcileRun h2 e2 k')"
  define k2 where "k2 = snd (snd (reconcileRun h2 e2 k'))"
  from v2 have run2: "reconcileRun h2 e2 k' = (err2, Some v2, k2)"
    unfolding err2_def k2_def by (metis prod.collapse)
  from reconcileRun_reached [OF run2] r2 have rv: "replicas v2 = replicas v"
    by auto
  from A have m2: "managed st2 k'" by (simp only: managed_cong [OF n2])
  from rb rv have rb2: "replicas v2 < 2 ^ 63" by simp
  have ex: "\<forall>j. 0 \<le> j \<and> j < replicas v2 \<longrightarrow> podName st2 j \<in> PodName ` set (podObjects k')"
  proof (intro allI impI)
    fix j
    assume "0 \<le> j \<and> j < replicas v2"
    with rv B have "podName st j \<in> PodName ` set (stepPods st k')" by auto
    then show "podName st2 j \<in> PodName ` set (podObjects k')"
      by (auto simp: stepPods_def podName_cong [OF n2])
  qed
  have ir: "\<forall>p \<in> set (stepPods st2 k'). inRange (replicas v2) p"
    using D rv by (simp add: stepPods_cong [OF n2])
  note cv = reconcileRun_converges [OF m2 r2(1) run2 nc2 nd2 rb2]
  from cv [THEN conjunct2, THEN conjunct2, THEN conjunct2, THEN conjunct2] ex ir
  have "podObjects k2 = podObjects k'" by (rule_tac mp) (assumption, rule conjI)
  with v2 rv show ?thesis unfolding k2_def by blast
qed

text \<open>
  C4. In every run on a cluster whose pods have distinct names, a pod that is gone after
  the run was a pod of the step whose replica index is not below the replica count of the
  run. A run completes its loops when the step is there, is not being deleted and has a
  status, and no call fails otherwise than by what the code ignores: a pod that exists
  already at its creation, a pod that is not found at its deletion, a container that is not
  found at the exec. A run that completes its loops has asked to create the pod named after
  the step and the index, for every index from 0 up to the replica count, in this order,
  and has asked to delete every listed pod whose index is not below the count, and no
  other. When the cluster is managed and no creation and no deletion fails otherwise than
  by a pod that exists or is not found, the pods of the step after the run are those of the
  indices below the count, one each, and a second run with the same count completes its
  loops as well and leaves the pods of the cluster as they are.
\<close>

theorem C4_pod_lifecycle:
  assumes "reconcileRun h e k = (err, l, k')"
    and "distinct (map PodName (podObjects k))"
  shows "(\<forall>q \<in> set (podObjects k). q \<notin> set (podObjects k') \<longrightarrow>
            (\<exists>st1 status1. stepObject k = Some st1 \<and> Status st1 = Some status1 \<and>
               StepNameLabel q = Name st1 \<and> \<not> inRange (scaledReplicas h e st1 status1) q)) \<and>
         (getErr e = None \<and> listErr e = None \<and>
          (\<forall>n. IgnoreAlreadyExists (createErr e n) = None) \<and>
          (\<forall>n. IgnoreNotFound (deleteErr e n) = None) \<and>
          (\<forall>n. executorErr e n = None) \<and>
          (\<forall>n. IgnoreContainerNotFound (streamErr e n) = None) \<and>
          stepObject k = Some st \<and> DeletionTimestamp st = None \<and> Status st = Some status \<longrightarrow>
          (\<exists>v. l = Some v \<and> replicas v = scaledReplicas h e st status \<and>
             (IgnoreConflict (patchErr e) = None \<longrightarrow> err = None))) \<and>
         (\<forall>v. l = Some v \<longrightarrow>
            (\<exists>st1. stepObject k = Some st1 \<and>
               filter isCreate (issued k k') =
                 map (\<lambda>j. CreatePod (podName st1 j)) [0..replicas v - 1] \<and>
               filter isDelete (issued k k') =
                 map (\<lambda>p. DeletePod (PodName p))
                   (filter (\<lambda>p. \<not> inRange (replicas v) p) (pods v)) \<and>
               (managed st1 k \<and> (\<forall>n. createErr e n = None) \<and> (\<forall>n. deleteErr e n = None) \<and>
                replicas v < 2 ^ 63 \<longrightarrow>
                  managed st1 k' \<and>
                  PodName ` set (stepPods st1 k') = podName st1 ` {0..<replicas v} \<and>
                  length (stepPods st1 k') = nat (replicas v) \<and>
                  (\<forall>h2 e2 st2 status2.
                     getErr e2 = None \<and> listErr e2 = None \<and>
                     (\<forall>n. createErr e2 n = None) \<and> (\<forall>n. deleteErr e2 n = None) \<and>
                     (\<forall>n. executorErr e2 n = None) \<and>
                     (\<forall>n. IgnoreContainerNotFound (streamErr e2 n) = None) \<and>
                     stepObject k' = Some st2 \<and> Status st2 = Some status2 \<and>
                     scaledReplicas h2 e2 st2 status2 = replicas v \<longrightarrow>
                     (\<exists>v2. fst (snd (reconcileRun h2 e2 k')) = Some v2 \<and>
                        replicas v2 = replicas v) \<and>
                     podObjects (snd (snd (reconcileRun h2 e2 k'))) = podObjects k'))))"
proof (intro conjI ballI allI impI)
  fix q
  assume "q \<in> set (podObjects k)" "q \<notin> set (podObjects k')"
  with reconcileRun_gone [OF assms]
  show "\<exists>st1 status1. stepObject k = Some st1 \<and> Status st1 = Some status1 \<and>
          StepNameLabel q = Name st1 \<and> \<not> inRange (scaledReplicas h e st1 status1) q"
    by blast
next
  assume t: "getErr e = None \<and> listErr e = None \<and>
          (\<forall>n. IgnoreAlreadyExists (createErr e n) = None) \<and>
          (\<forall>n. IgnoreNotFound (deleteErr e n) = None) \<and>
          (\<forall>n. executorErr e n = None) \<and>
          (\<forall>n. IgnoreContainerNotFound (streamErr e n) = None) \<and>
          stepObject k = Some st \<and> DeletionTimestamp st = None \<and> Status st = Some status"
  then have g: "getErr e = None" and li: "listErr e = None" and
    c: "\<forall>n. IgnoreAlreadyExists (createErr e n) = None" and
    d: "\<forall>n. IgnoreNotFound (deleteErr e n) = None" and
    x: "\<forall>n. executorErr e n = None" and
    y: "\<forall>n. IgnoreContainerNotFound (streamErr e n) = None" and
    so: "stepObject k = Some st" "DeletionTimestamp st = None" "Status st = Some status"
    by simp_all
  from reconcileRun_completes [OF g so li c d x y, of h] assms(1) obtain v where
    l: "l = Some v" by auto
  with assms(1) have run: "reconcileRun h e k = (err, Some v, k')" by simp
  from reconcileRun_reached [OF run] so have r: "replicas v = scaledReplicas h e st status"
    by auto
  from reconcileRun_error [OF run] obtain status0 where
    er: "err = (if newStatus v = status0 then None
                else map_option FailedToPatch (IgnoreConflict (patchErr e)))"
    by blast
  have ec: "IgnoreConflict (patchErr e) = None \<longrightarrow> err = None"
    unfolding er by simp
  show "\<exists>v. l = Some v \<and> replicas v = scaledReplicas h e st status \<and>
      (IgnoreConflict (patchErr e) = None \<longrightarrow> err = None)"
    by (rule exI [of _ v]) (rule conjI [OF l conjI [OF r ec]])
next
  fix v
  assume l: "l = Some v"
  with assms have run: "reconcileRun h e k = (err, Some v, k')" by simp
  from reconcileRun_creates_deletes [OF run] obtain st1 where
    so: "stepObject k = Some st1" and
    cr: "filter isCreate (issued k k') =
           map (\<lambda>j. CreatePod (podName st1 j)) [0..replicas v - 1]" and
    dl: "filter isDelete (issued k k') =
           map (\<lambda>p. DeletePod (PodName p))
             (filter (\<lambda>p. \<not> inRange (replicas v) p) (pods v))"
    by blast
  have conv: "managed st1 k' \<and>
      PodName ` set (stepPods st1 k') = podName st1 ` {0..<replicas v} \<and>
      length (stepPods st1 k') = nat (replicas v) \<and>
      (\<forall>h2 e2 st2 status2.
         getErr e2 = None \<and> listErr e2 = None \<and>
         (\<forall>n. createErr e2 n = None) \<and> (\<forall>n. deleteErr e2 n = None) \<and>
         (\<forall>n. executorErr e2 n = None) \<and>
         (\<forall>n. IgnoreContainerNotFound (streamErr e2 n) = None) \<and>
         stepObject k' = Some st2 \<and> Status st2 = Some status2 \<and>
         scaledReplicas h2 e2 st2 status2 = replicas v \<longrightarrow>
         (\<exists>v2. fst (snd (reconcileRun h2 e2 k')) = Some v2 \<and> replicas v2 = replicas v) \<and>
         podObjects (snd (snd (reconcileRun h2 e2 k'))) = podObjects k')"
    if a: "managed st1 k \<and> (\<forall>n. createErr e n = None) \<and> (\<forall>n. deleteErr e n = None) \<and>
           replicas v < 2 ^ 63"
  proof -
    from a have m: "managed st1 k" and nc: "\<forall>n. createErr e n = None" and
      nd: "\<forall>n. deleteErr e n = None" and rb: "replicas v < 2 ^ 63"
      by simp_all
    from reconcileRun_converges [OF m so run nc nd rb] have
      A: "managed st1 k'" and
      B: "PodName ` set (stepPods st1 k') = podName st1 ` {0..<replicas v}" and
      Dd: "distinct (map PodName (stepPods st1 k'))" and
      D: "\<forall>p \<in> set (stepPods st1 k'). inRange (replicas v) p"
      by simp_all
    have "length (stepPods st1 k') = card (set (map PodName (stepPods st1 k')))"
      using distinct_card [OF Dd] by simp
    also have "\<dots> = nat (replicas v)" using B by (simp add: card_podNames_all)
    finally have C: "length (stepPods st1 k') = nat (replicas v)" .
    have E: "(\<exists>v2. fst (snd (reconcileRun h2 e2 k')) = Some v2 \<and> replicas v2 = replicas v) \<and>
         podObjects (snd (snd (reconcileRun h2 e2 k'))) = podObjects k'"
      if b: "getErr e2 = None \<and> listErr e2 = None \<and>
         (\<forall>n. createErr e2 n = None) \<and> (\<forall>n. deleteErr e2 n = None) \<and>
         (\<forall>n. executorErr e2 n = None) \<and>
         (\<forall>n. IgnoreContainerNotFound (streamErr e2 n) = None) \<and>
         stepObject k' = Some st2 \<and> Status st2 = Some status2 \<and>
         scaledReplicas h2 e2 st2 status2 = replicas v"
      for h2 e2 st2 status2
    proof -
      from b have g2: "getErr e2 = None" and l2: "listErr e2 = None" and
        nc2: "\<forall>n. createErr e2 n = None" and nd2: "\<forall>n. deleteErr e2 n = None" and
        x2: "\<forall>n. executorErr e2 n = None" and
        y2: "\<forall>n. IgnoreContainerNotFound (streamErr e2 n) = None" and
        r2: "stepObject k' = Some st2" "Status st2 = Some status2"
          "scaledReplicas h2 e2 st2 status2 = replicas v"
        by simp_all
      show ?thesis
        by (rule reconcileRun_second [OF run so A B D rb g2 l2 nc2 nd2 x2 y2 r2])
    qed
    have E': "\<forall>h2 e2 st2 status2.
         getErr e2 = None \<and> listErr e2 = None \<and>
         (\<forall>n. createErr e2 n = None) \<and> (\<forall>n. deleteErr e2 n = None) \<and>
         (\<forall>n. executorErr e2 n = None) \<and>
         (\<forall>n. IgnoreContainerNotFound (streamErr e2 n) = None) \<and>
         stepObject k' = Some st2 \<and> Status st2 = Some status2 \<and>
         scaledReplicas h2 e2 st2 status2 = replicas v \<longrightarrow>
         (\<exists>v2. fst (snd (reconcileRun h2 e2 k')) = Some v2 \<and> replicas v2 = replicas v) \<and>
         podObjects (snd (snd (reconcileRun h2 e2 k'))) = podObjects k'"
      by (intro allI impI) (rule E)
    show ?thesis by (rule conjI [OF A conjI [OF B conjI [OF C E']]])
  qed
  have cimp: "managed st1 k \<and> (\<forall>n. createErr e n = None) \<and> (\<forall>n. deleteErr e n = None) \<and>
      replicas v < 2 ^ 63 \<longrightarrow>
      managed st1 k' \<and>
      PodName ` set (stepPods st1 k') = podName st1 ` {0..<replicas v} \<and>
      length (stepPods st1 k') = nat (replicas v) \<and>
      (\<forall>h2 e2 st2 status2.
         getErr e2 = None \<and> listErr e2 = None \<and>
         (\<forall>n. createErr e2 n = None) \<and> (\<forall>n. deleteErr e2 n = None) \<and>
         (\<forall>n. executorErr e2 n = None) \<and>
         (\<forall>n. IgnoreContainerNotFound (streamErr e2 n) = None) \<and>
         stepObject k' = Some st2 \<and> Status st2 = Some status2 \<and>
         scaledReplicas h2 e2 st2 status2 = replicas v \<longrightarrow>
         (\<exists>v2. fst (snd (reconcileRun h2 e2 k')) = Some v2 \<and> replicas v2 = replicas v) \<and>
         podObjects (snd (snd (reconcileRun h2 e2 k'))) = podObjects k')"
    by (rule impI) (rule conv)
  show "\<exists>st1. stepObject k = Some st1 \<and>
          filter isCreate (issued k k') =
            map (\<lambda>j. CreatePod (podName st1 j)) [0..replicas v - 1] \<and>
          filter isDelete (issued k k') =
            map (\<lambda>p. DeletePod (PodName p))
              (filter (\<lambda>p. \<not> inRange (replicas v) p) (pods v)) \<and>
          (managed st1 k \<and> (\<forall>n. createErr e n = None) \<and> (\<forall>n. deleteErr e n = None) \<and>
           replicas v < 2 ^ 63 \<longrightarrow>
             managed st1 k' \<and>
             PodName ` set (stepPods st1 k') = podName st1 ` {0..<replicas v} \<and>
             length (stepPods st1 k') = nat (replicas v) \<and>
             (\<forall>h2 e2 st2 status2.
                getErr e2 = None \<and> listErr e2 = None \<and>
                (\<forall>n. createErr e2 n = None) \<and> (\<forall>n. deleteErr e2 n = None) \<and>
                (\<forall>n. executorErr e2 n = None) \<and>
                (\<forall>n. IgnoreContainerNotFound (streamErr e2 n) = None) \<and>
                stepObject k' = Some st2 \<and> Status st2 = Some status2 \<and>
                scaledReplicas h2 e2 st2 status2 = replicas v \<longrightarrow>
                (\<exists>v2. fst (snd (reconcileRun h2 e2 k')) = Some v2 \<and> replicas v2 = replicas v) \<and>
                podObjects (snd (snd (reconcileRun h2 e2 k'))) = podObjects k'))"
    by (rule exI [of _ st1]) (rule conjI [OF so conjI [OF cr conjI [OF dl cimp]]])
qed

theorem C4_pod_lifecycle_witness:
  "filter isCreate (issued exWorkKube (snd (snd (reconcileRun exHelpers exEnv exWorkKube)))) =
     [CreatePod ''w-0'', CreatePod ''w-1''] \<and>
   filter isDelete (issued exWorkKube (snd (snd (reconcileRun exHelpers exEnv exWorkKube)))) =
     [DeletePod ''w-7''] \<and>
   podObjects (snd (snd (reconcileRun exHelpers exEnv exWorkKube))) = [exWork0, exWork1] \<and>
   \<not> inRange 2 exWork7 \<and>
   length (stepPods exWorkStep (snd (snd (reconcileRun exHelpers exEnv exWorkKube)))) = 2 \<and>
   map_option replicas (fst (snd (reconcileRun exHelpers exEnv exWorkKube1))) = Some 2 \<and>
   podObjects (snd (snd (reconcileRun exHelpers exEnv exWorkKube1))) = podObjects exWorkKube1 \<and>
   map_option replicas
     (fst (snd (reconcileRun exHelpers (exEnv\<lparr>deleteErr := (\<lambda>n. Some NotFound)\<rparr>) exWorkKube))) =
     Some 2 \<and>
   fst (reconcileRun exHelpers (exEnv\<lparr>deleteErr := (\<lambda>n. Some NotFound)\<rparr>) exWorkKube) = None"
proof -
  have d: "distinct (map PodName (podObjects exWorkKube))"
    by (simp add: exWorkKube_def exWork0_def exWork1_def exWork7_def)
  note t = C4_pod_lifecycle [OF exWorkRun d]
  from t [THEN conjunct2, THEN conjunct2, THEN spec [where x = exWorkLocals]] obtain st where
    so: "stepObject exWorkKube = Some st" and
    cr: "filter isCreate (issued exWorkKube exWorkKube1) =
           map (\<lambda>j. CreatePod (podName st j)) [0..replicas exWorkLocals - 1]" and
    dl: "filter isDelete (issued exWorkKube exWorkKube1) =
           map (\<lambda>p. DeletePod (PodName p))
             (filter (\<lambda>p. \<not> inRange (replicas exWorkLocals) p) (pods exWorkLocals))" and
    cv: "managed st exWorkKube \<and> (\<forall>n. createErr exEnv n = None) \<and>
         (\<forall>n. deleteErr exEnv n = None) \<and> replicas exWorkLocals < 2 ^ 63 \<longrightarrow>
           managed st exWorkKube1 \<and>
           PodName ` set (stepPods st exWorkKube1) = podName st ` {0..<replicas exWorkLocals} \<and>
           length (stepPods st exWorkKube1) = nat (replicas exWorkLocals) \<and>
           (\<forall>h2 e2 st2 status2.
              getErr e2 = None \<and> listErr e2 = None \<and>
              (\<forall>n. createErr e2 n = None) \<and> (\<forall>n. deleteErr e2 n = None) \<and>
              (\<forall>n. executorErr e2 n = None) \<and>
              (\<forall>n. IgnoreContainerNotFound (streamErr e2 n) = None) \<and>
              stepObject exWorkKube1 = Some st2 \<and> Status st2 = Some status2 \<and>
              scaledReplicas h2 e2 st2 status2 = replicas exWorkLocals \<longrightarrow>
              (\<exists>v2. fst (snd (reconcileRun h2 e2 exWorkKube1)) = Some v2 \<and>
                 replicas v2 = replicas exWorkLocals) \<and>
              podObjects (snd (snd (reconcileRun h2 e2 exWorkKube1))) = podObjects exWorkKube1)"
    by blast
  from so have st: "st = exWorkStep" by (simp add: exWorkKube_def)
  have r: "replicas exWorkLocals = 2" "pods exWorkLocals = [exWork0, exWork1, exWork7]"
    by (simp_all add: exWorkLocals_def)
  have ir: "inRange 2 exWork0" "inRange 2 exWork1" "\<not> inRange 2 exWork7"
    by code_simp+
  have n: "podName exWorkStep 0 = ''w-0''" "podName exWorkStep 1 = ''w-1''"
    by code_simp+
  have u: "[0..(1::int)] = [0, 1]"
    by (simp add: upto_rec1)
  from cr st r n u
  have c1: "filter isCreate (issued exWorkKube exWorkKube1) = [CreatePod ''w-0'', CreatePod ''w-1'']"
    by simp
  from dl r ir
  have c2: "filter isDelete (issued exWorkKube exWorkKube1) = [DeletePod ''w-7'']"
    by (simp add: exWork7_def)
  have nf: "(\<forall>n. createErr exEnv n = None) \<and> (\<forall>n. deleteErr exEnv n = None)"
    by (simp add: exEnv_def)
  have e: "getErr exEnv = None \<and> listErr exEnv = None \<and>
      (\<forall>n. executorErr exEnv n = None) \<and>
      (\<forall>n. IgnoreContainerNotFound (streamErr exEnv n) = None)"
    by (simp add: exEnv_def IgnoreContainerNotFound_def)
  from cv st exWork_managed nf r have
    c3: "length (stepPods exWorkStep exWorkKube1) = 2" and
    idem: "\<forall>h2 e2 st2 status2.
              getErr e2 = None \<and> listErr e2 = None \<and>
              (\<forall>n. createErr e2 n = None) \<and> (\<forall>n. deleteErr e2 n = None) \<and>
              (\<forall>n. executorErr e2 n = None) \<and>
              (\<forall>n. IgnoreContainerNotFound (streamErr e2 n) = None) \<and>
              stepObject exWorkKube1 = Some st2 \<and> Status st2 = Some status2 \<and>
              scaledReplicas h2 e2 st2 status2 = 2 \<longrightarrow>
              (\<exists>v2. fst (snd (reconcileRun h2 e2 exWorkKube1)) = Some v2 \<and> replicas v2 = 2) \<and>
              podObjects (snd (snd (reconcileRun h2 e2 exWorkKube1))) = podObjects exWorkKube1"
    by simp_all
  have s2: "stepObject exWorkKube1 = Some (exWorkStep\<lparr>Status := Some exWorkNewStatus\<rparr>) \<and>
      Status (exWorkStep\<lparr>Status := Some exWorkNewStatus\<rparr>) = Some exWorkNewStatus"
    by (simp add: exWorkKube1_def)
  have sr: "scaledReplicas exHelpers exEnv (exWorkStep\<lparr>Status := Some exWorkNewStatus\<rparr>)
      exWorkNewStatus = 2"
    by code_simp
  from idem [THEN spec [where x = exHelpers], THEN spec [where x = exEnv],
      THEN spec [where x = "exWorkStep\<lparr>Status := Some exWorkNewStatus\<rparr>"],
      THEN spec [where x = exWorkNewStatus]]
    nf e s2 sr
  have c4: "(\<exists>v2. fst (snd (reconcileRun exHelpers exEnv exWorkKube1)) = Some v2 \<and>
               replicas v2 = 2) \<and>
            podObjects (snd (snd (reconcileRun exHelpers exEnv exWorkKube1))) =
              podObjects exWorkKube1"
    by simp
  then have c4a: "map_option replicas (fst (snd (reconcileRun exHelpers exEnv exWorkKube1))) =
      Some 2"
    by auto
  have c5: "podObjects exWorkKube1 = [exWork0, exWork1]"
    by (simp add: exWorkKube1_def)
  let ?e = "exEnv\<lparr>deleteErr := (\<lambda>n. Some NotFound)\<rparr>"
  have e3: "getErr ?e = None \<and> listErr ?e = None \<and>
      (\<forall>n. IgnoreAlreadyExists (createErr ?e n) = None) \<and>
      (\<forall>n. IgnoreNotFound (deleteErr ?e n) = None) \<and>
      (\<forall>n. executorErr ?e n = None) \<and>
      (\<forall>n. IgnoreContainerNotFound (streamErr ?e n) = None) \<and>
      IgnoreConflict (patchErr ?e) = None"
    by (simp add: exEnv_def IgnoreAlreadyExists_def IgnoreNotFound_def
        IgnoreContainerNotFound_def IgnoreConflict_def)
  have s3: "stepObject exWorkKube = Some exWorkStep \<and> DeletionTimestamp exWorkStep = None \<and>
      Status exWorkStep = Some exWorkStatus"
    by (simp add: exWorkKube_def exWorkStep_def)
  have sr3: "scaledReplicas exHelpers ?e exWorkStep exWorkStatus = 2"
    by code_simp
  have pc: "reconcileRun exHelpers ?e exWorkKube =
      (fst (reconcileRun exHelpers ?e exWorkKube), fst (snd (reconcileRun exHelpers ?e exWorkKube)),
       snd (snd (reconcileRun exHelpers ?e exWorkKube)))"
    by simp
  note t3 = C4_pod_lifecycle [OF pc d, where st = exWorkStep and status = exWorkStatus,
      THEN conjunct2, THEN conjunct1]
  from t3 [THEN mp, OF conjI [OF e3 [THEN conjunct1]
      conjI [OF e3 [THEN conjunct2, THEN conjunct1]
      conjI [OF e3 [THEN conjunct2, THEN conjunct2, THEN conjunct1]
      conjI [OF e3 [THEN conjunct2, THEN conjunct2, THEN conjunct2, THEN conjunct1]
      conjI [OF e3 [THEN conjunct2, THEN conjunct2, THEN conjunct2, THEN conjunct2, THEN conjunct1]
      conjI [OF e3 [THEN conjunct2, THEN conjunct2, THEN conjunct2, THEN conjunct2, THEN conjunct2,
        THEN conjunct1] s3]]]]]]]
    e3 sr3
  have c6: "\<exists>v. fst (snd (reconcileRun exHelpers ?e exWorkKube)) = Some v \<and> replicas v = 2 \<and>
      fst (reconcileRun exHelpers ?e exWorkKube) = None"
    by simp
  then have c6a: "map_option replicas (fst (snd (reconcileRun exHelpers ?e exWorkKube))) = Some 2"
    "fst (reconcileRun exHelpers ?e exWorkKube) = None"
    by auto
  from c1 c2 c3 c4 c4a c5 c6a ir show ?thesis by (simp add: exWorkRun)
qed

section \<open>The cycle of the sidecar\<close>




lemma afterHooks_append:
  "afterHooks (xs @ ys) st = afterHooks ys (afterHooks xs st)"
  by (simp add: afterHooks_def)












end
